theory Spec2Isabelle
  imports Main
begin

section \<open>Strings of UTF-16 code units\<close>

text \<open>
  A JavaScript string is a sequence of 16-bit code units and \<open>charCodeAt\<close> returns a
  number. A code unit is modelled as an integer and a string as the list of its code
  units; \<open>str\<close> turns an ASCII literal into such a list. \<open>charCodeAt\<close> out of range is
  NaN in the source and \<open>None\<close> here; the source never passes a negative index.
\<close>

type_synonym code_unit = int
type_synonym jsstring = "code_unit list"

definition str :: "string \<Rightarrow> jsstring" where
  "str s = map of_char s"

definition charCodeAt :: "jsstring \<Rightarrow> nat \<Rightarrow> code_unit option" where
  "charCodeAt s i = (if i < length s then Some (s ! i) else None)"

text \<open>
  \<open>String.prototype.substring(start, end)\<close>: both arguments are clamped to
  \<open>[0, length]\<close> and swapped when \<open>start > end\<close>.
\<close>

definition clamp_index :: "jsstring \<Rightarrow> int \<Rightarrow> nat" where
  "clamp_index s i = nat (min (max i 0) (int (length s)))"

definition substring :: "jsstring \<Rightarrow> int \<Rightarrow> int \<Rightarrow> jsstring" where
  "substring s start end =
     (let a = clamp_index s start; b = clamp_index s end;
          lo = min a b; hi = max a b
      in take (hi - lo) (drop lo s))"

text \<open>
  \<open>String.prototype.trim\<close> removes the ECMAScript white space and line terminator code
  units from both ends.
\<close>

definition isTrimSpace :: "code_unit \<Rightarrow> bool" where
  "isTrimSpace c \<longleftrightarrow>
     c = 9 \<or> c = 10 \<or> c = 11 \<or> c = 12 \<or> c = 13 \<or> c = 32 \<or> c = 160 \<or> c = 5760 \<or>
     (8192 \<le> c \<and> c \<le> 8202) \<or> c = 8232 \<or> c = 8233 \<or> c = 8239 \<or> c = 8287 \<or>
     c = 12288 \<or> c = 65279"

definition trim :: "jsstring \<Rightarrow> jsstring" where
  "trim s = rev (dropWhile isTrimSpace (rev (dropWhile isTrimSpace s)))"

subsection \<open>The character table and the classifiers\<close>

text \<open>
  Modelled from the spec: the table \<open>Characters\<close> of the module \<open>agnostic/strings\<close>,
  which is not among the sources. Each \<open>Characters.$NAME\<close> is the ASCII code of the
  character that the comments of the source and the specification name for it. A name
  that is also the name of a token kind has the suffix \<open>_CHAR\<close> here (\<open>$EQUALS\<close> is
  \<open>EQUALS_CHAR\<close>); \<open>$0\<close>, \<open>$_\<close>, \<open>$E\<close>, \<open>$e\<close>, \<open>$X\<close> and \<open>$x\<close> are
  \<open>ZERO_CHAR\<close>, \<open>UNDERSCORE\<close>, \<open>UPPER_E\<close>, \<open>LOWER_E\<close>, \<open>UPPER_X\<close> and
  \<open>LOWER_X\<close>; \<open>DQUOTE\<close> is the double quote of the error message.
\<close>

abbreviation LF :: code_unit where "LF \<equiv> 10"
abbreviation CR :: code_unit where "CR \<equiv> 13"
abbreviation EXCLAIM :: code_unit where "EXCLAIM \<equiv> 33"
abbreviation DQUOTE :: code_unit where "DQUOTE \<equiv> 34"
abbreviation AND_CHAR :: code_unit where "AND_CHAR \<equiv> 38"
abbreviation SQUOTE :: code_unit where "SQUOTE \<equiv> 39"
abbreviation LPAREN :: code_unit where "LPAREN \<equiv> 40"
abbreviation RPAREN :: code_unit where "RPAREN \<equiv> 41"
abbreviation STAR_CHAR :: code_unit where "STAR_CHAR \<equiv> 42"
abbreviation PLUS_CHAR :: code_unit where "PLUS_CHAR \<equiv> 43"
abbreviation MINUS_CHAR :: code_unit where "MINUS_CHAR \<equiv> 45"
abbreviation PERIOD_CHAR :: code_unit where "PERIOD_CHAR \<equiv> 46"
abbreviation SLASH_CHAR :: code_unit where "SLASH_CHAR \<equiv> 47"
abbreviation ZERO_CHAR :: code_unit where "ZERO_CHAR \<equiv> 48"
abbreviation LANGLE :: code_unit where "LANGLE \<equiv> 60"
abbreviation EQUALS_CHAR :: code_unit where "EQUALS_CHAR \<equiv> 61"
abbreviation RANGLE :: code_unit where "RANGLE \<equiv> 62"
abbreviation UPPER_E :: code_unit where "UPPER_E \<equiv> 69"
abbreviation UPPER_X :: code_unit where "UPPER_X \<equiv> 88"
abbreviation CARET :: code_unit where "CARET \<equiv> 94"
abbreviation UNDERSCORE :: code_unit where "UNDERSCORE \<equiv> 95"
abbreviation LOWER_E :: code_unit where "LOWER_E \<equiv> 101"
abbreviation LOWER_X :: code_unit where "LOWER_X \<equiv> 120"
abbreviation LCURLY :: code_unit where "LCURLY \<equiv> 123"
abbreviation PIPE :: code_unit where "PIPE \<equiv> 124"
abbreviation RCURLY :: code_unit where "RCURLY \<equiv> 125"
abbreviation TILDE :: code_unit where "TILDE \<equiv> 126"

text \<open>
  Modelled from the spec: \<open>isDigit\<close> of \<open>agnostic/strings\<close> (section 4.A of the
  specification): \<open>'0' \<le> c \<le> '9'\<close>, false for the out-of-range sentinel.
\<close>

definition isDigit :: "code_unit option \<Rightarrow> bool" where
  "isDigit c = (case c of None \<Rightarrow> False | Some n \<Rightarrow> 48 \<le> n \<and> n \<le> 57)"

text \<open>
  Modelled from the spec: \<open>isHexadecimal\<close> of \<open>agnostic/strings\<close> (section 4.A): a digit,
  \<open>'a'..'f'\<close> or \<open>'A'..'F'\<close>.
\<close>

definition isHexadecimal :: "code_unit option \<Rightarrow> bool" where
  "isHexadecimal c =
     (case c of None \<Rightarrow> False
      | Some n \<Rightarrow> (48 \<le> n \<and> n \<le> 57) \<or> (97 \<le> n \<and> n \<le> 102) \<or> (65 \<le> n \<and> n \<le> 70))"

text \<open>
  Modelled from the spec: \<open>isLetter\<close> of \<open>agnostic/strings\<close> (section 4.A):
  \<open>'a'..'z'\<close> or \<open>'A'..'Z'\<close>.
\<close>

definition isLetter :: "code_unit option \<Rightarrow> bool" where
  "isLetter c =
     (case c of None \<Rightarrow> False
      | Some n \<Rightarrow> (97 \<le> n \<and> n \<le> 122) \<or> (65 \<le> n \<and> n \<le> 90))"

text \<open>
  Modelled from the spec: \<open>isWhiteSpace\<close> of \<open>agnostic/strings\<close> (section 4.A): space,
  tab, \<open>LF\<close>, \<open>CR\<close>.
\<close>

definition isWhiteSpace :: "code_unit option \<Rightarrow> bool" where
  "isWhiteSpace c =
     (case c of None \<Rightarrow> False | Some n \<Rightarrow> n = 32 \<or> n = 9 \<or> n = LF \<or> n = CR)"

section \<open>The source file (scanner.ts)\<close>

text \<open>
  \<open>SourceFile\<close> holds the immutable contents, the optional URL and the private cache of
  the line-start table, \<open>None\<close> until the first query.
\<close>

record SourceFile =
  contents :: jsstring
  sourceUrl :: "jsstring option"
  mLineStartsCache :: "int list option"

definition newSourceFile :: "jsstring \<Rightarrow> jsstring option \<Rightarrow> SourceFile" where
  "newSourceFile c u = \<lparr>contents = c, sourceUrl = u, mLineStartsCache = None\<rparr>"

definition file_length :: "SourceFile \<Rightarrow> int" where
  "file_length f = int (length (contents f))"

datatype RangeError =
    NegativeOffset int
  | OffsetPastLength int int
  | EndBeforeStart int int

text \<open>\<open>assertValidOffset\<close>: \<open>None\<close> when the offset is accepted, the error raised otherwise.\<close>

definition assertValidOffset :: "SourceFile \<Rightarrow> int \<Rightarrow> RangeError option" where
  "assertValidOffset f offset =
     (if offset < 0 then Some (NegativeOffset offset)
      else if offset > file_length f then Some (OffsetPastLength offset (file_length f))
      else None)"

text \<open>
  \<open>computeLineStarts\<close>: the loop over \<open>i\<close>, with the array being built as accumulator.
  A \<open>CR\<close> that is not followed by \<open>LF\<close> is rewritten to \<open>LF\<close> before the test.
\<close>

function computeLineStarts_loop :: "jsstring \<Rightarrow> nat \<Rightarrow> int list \<Rightarrow> int list" where
  "computeLineStarts_loop s i acc =
     (if i < length s then
        (let c = charCodeAt s i;
             c' = (if c = Some CR then
                     (let j = i + 1 in
                      if j \<ge> length s \<or> charCodeAt s j \<noteq> Some LF
                      then Some LF else c)
                   else c)
         in computeLineStarts_loop s (i + 1)
              (if c' = Some LF then acc @ [int i + 1] else acc))
      else acc)"
  by pat_completeness auto
termination
  by (relation "measure (\<lambda>(s, i, acc). length s - i)") auto

declare computeLineStarts_loop.simps [simp del]

definition computeLineStarts :: "SourceFile \<Rightarrow> SourceFile" where
  "computeLineStarts f =
     (case mLineStartsCache f of
        Some _ \<Rightarrow> f
      | None \<Rightarrow> f\<lparr>mLineStartsCache := Some (computeLineStarts_loop (contents f) 0 [])\<rparr>)"

text \<open>
  The getter \<open>lineStarts\<close> fills the cache and returns it. Within one call of
  \<open>computeLine\<close> or \<open>computeColumn\<close> every later read of \<open>this.lineStarts\<close> returns the
  same cached array, so those functions read it once.
\<close>

definition lineStarts :: "SourceFile \<Rightarrow> int list \<times> SourceFile" where
  "lineStarts f =
     (let f' = computeLineStarts f
      in (case mLineStartsCache f' of Some t \<Rightarrow> t | None \<Rightarrow> [], f'))"

text \<open>
  Reading an array at an index: \<open>undefined\<close> (here \<open>None\<close>) outside the array, also
  at index \<open>-1\<close>. A comparison of a number with \<open>undefined\<close> is false.
\<close>

definition js_index :: "int list \<Rightarrow> int \<Rightarrow> int option" where
  "js_index xs i = (if 0 \<le> i \<and> i < int (length xs) then Some (xs ! nat i) else None)"

definition js_less :: "int \<Rightarrow> int option \<Rightarrow> bool" where
  "js_less a b = (case b of None \<Rightarrow> False | Some v \<Rightarrow> a < v)"

definition js_greater_eq :: "int \<Rightarrow> int option \<Rightarrow> bool" where
  "js_greater_eq a b = (case b of None \<Rightarrow> False | Some v \<Rightarrow> a \<ge> v)"

definition js_opt_greater :: "int option \<Rightarrow> int \<Rightarrow> bool" where
  "js_opt_greater a b = (case a of None \<Rightarrow> False | Some v \<Rightarrow> v > b)"

text \<open>
  \<open>binarySearch\<close>: the loop on \<open>(min, max)\<close>; \<open>Math.floor(min + (max - min) / 2)\<close> on
  integers is \<open>min + (max - min) div 2\<close>.
\<close>

function binarySearch_loop :: "int list \<Rightarrow> int \<Rightarrow> int \<Rightarrow> int \<Rightarrow> int" where
  "binarySearch_loop ls offset mn mx =
     (if mn < mx then
        (let half = mn + (mx - mn) div 2
         in if js_opt_greater (js_index ls half) offset
            then binarySearch_loop ls offset mn half
            else binarySearch_loop ls offset (half + 1) mx)
      else mx)"
  by pat_completeness auto
termination
  by (relation "measure (\<lambda>(ls, offset, mn, mx). nat (mx - mn))") auto

declare binarySearch_loop.simps [simp del]

definition binarySearch :: "int list \<Rightarrow> int \<Rightarrow> int" where
  "binarySearch ls offset = binarySearch_loop ls offset 0 (int (length ls) - 1)"

definition computeLine :: "SourceFile \<Rightarrow> int \<Rightarrow> (RangeError + int) \<times> SourceFile" where
  "computeLine f offset =
     (case assertValidOffset f offset of
        Some e \<Rightarrow> (Inl e, f)
      | None \<Rightarrow>
          (let (ls, f') = lineStarts f in
           if js_less offset (js_index ls 0) then (Inr 0, f')
           else if js_greater_eq offset (js_index ls (int (length ls) - 1))
             then (Inr (int (length ls)), f')
           else (Inr (binarySearch ls offset), f')))"

text \<open>
  \<open>computeColumn\<close>; \<open>this.lineStarts[line] || 0\<close> is \<open>0\<close> when the entry is
  \<open>undefined\<close> or \<open>0\<close>.
\<close>

definition computeColumn :: "SourceFile \<Rightarrow> int \<Rightarrow> (RangeError + int) \<times> SourceFile" where
  "computeColumn f offset =
     (case assertValidOffset f offset of
        Some e \<Rightarrow> (Inl e, f)
      | None \<Rightarrow>
          (case computeLine f offset of
             (Inl e, f') \<Rightarrow> (Inl e, f')
           | (Inr l, f') \<Rightarrow>
               (let line = l - 1;
                    (ls, f'') = lineStarts f';
                    start = (case js_index ls line of
                               None \<Rightarrow> 0
                             | Some v \<Rightarrow> if v = 0 then 0 else v)
                in (Inr (offset - start), f''))))"

text \<open>
  \<open>FileSpan\<close> keeps the file, the offset and the text; line and column are computed from
  the file when they are read.
\<close>

record FileSpan =
  span_file :: SourceFile
  span_offset :: int
  span_text :: jsstring

definition span :: "SourceFile \<Rightarrow> int \<Rightarrow> int \<Rightarrow> (RangeError + FileSpan) \<times> SourceFile" where
  "span f start end =
     (case assertValidOffset f start of
        Some e \<Rightarrow> (Inl e, f)
      | None \<Rightarrow>
          (case assertValidOffset f end of
             Some e \<Rightarrow> (Inl e, f)
           | None \<Rightarrow>
               if end < start then (Inl (EndBeforeStart end start), f)
               else (Inr \<lparr>span_file = f, span_offset = start,
                          span_text = substring (contents f) start end\<rparr>, f)))"

definition span_line :: "FileSpan \<Rightarrow> RangeError + int" where
  "span_line sp = fst (computeLine (span_file sp) (span_offset sp))"

definition span_column :: "FileSpan \<Rightarrow> RangeError + int" where
  "span_column sp = fst (computeColumn (span_file sp) (span_offset sp))"


subsection \<open>The scanner\<close>

text \<open>
  \<open>StringScanner\<close>: the file being read and the cursor \<open>mPosition\<close>. \<open>match\<close> is
  used by the lexer with a code unit only; that overload is \<open>match_char\<close>.
\<close>

record StringScanner =
  source :: SourceFile
  mPosition :: nat

definition newStringScanner :: "jsstring \<Rightarrow> StringScanner" where
  "newStringScanner data = \<lparr>source = newSourceFile data None, mPosition = 0\<rparr>"

definition scanner_length :: "StringScanner \<Rightarrow> nat" where
  "scanner_length sc = length (contents (source sc))"

definition hasNext :: "StringScanner \<Rightarrow> bool" where
  "hasNext sc \<longleftrightarrow> mPosition sc < scanner_length sc"

definition peek :: "StringScanner \<Rightarrow> code_unit option" where
  "peek sc = charCodeAt (contents (source sc)) (mPosition sc)"

definition advance :: "StringScanner \<Rightarrow> code_unit option \<times> StringScanner" where
  "advance sc =
     (charCodeAt (contents (source sc)) (mPosition sc), sc\<lparr>mPosition := mPosition sc + 1\<rparr>)"

definition match_char :: "StringScanner \<Rightarrow> code_unit \<Rightarrow> bool \<times> StringScanner" where
  "match_char sc pattern =
     (if peek sc = Some pattern then (True, sc\<lparr>mPosition := mPosition sc + 1\<rparr>)
      else (False, sc))"

definition scanner_substring :: "StringScanner \<Rightarrow> nat \<Rightarrow> nat \<Rightarrow> jsstring" where
  "scanner_substring sc start end = substring (contents (source sc)) (int start) (int end)"

section \<open>The lexer\<close>

datatype TokenKind =
    IDENTIFIER | STRING | NUMBER
  | CLASS | ELSE | FALSE | FOR | IF | LET | RETURN | SUPER | THIS | TRUE | WHILE
  | ARROW | LEFT_PAREN | RIGHT_PAREN | LEFT_CURLY | RIGHT_CURLY
  | PERIOD | PLUS | PLUS_BY | MINUS | MINUS_BY | STAR | STAR_BY | SLASH | SLASH_BY
  | MODULUS | MODULUS_BY | ASSIGN | EQUALS | NOT_EQUALS | IDENTICAL | NOT_IDENTICAL
  | GREATER_THAN | GREATER_THAN_OR_EQUAL | LESS_THAN | LESS_THAN_OR_EQUAL
  | LOGICAL_OR | OR | LOGICAL_AND | AND | LOGICAL_XOR | NEGATE | LOGICAL_NOT
  | INCREMENT | DECREMENT | LEFT_SHIFT | RIGHT_SHIFT
  | EOF
  | OBJECT_PROTOTYPE_MEMBER jsstring

record IComment =
  comment_lexeme :: jsstring
  comment_offset :: int

record Token =
  kind :: TokenKind
  lexeme :: jsstring
  comments :: "IComment list"
  offset :: int

text \<open>
  \<open>ClutchLexer.keywords\<close> is a plain object, so the lookup \<open>keywords[name]\<close> also finds
  the members every object inherits from \<open>Object.prototype\<close>; those values are truthy
  and are no \<open>TokenKind\<close>, which \<open>OBJECT_PROTOTYPE_MEMBER\<close> stands for.
\<close>

definition objectPrototypeMembers :: "jsstring list" where
  "objectPrototypeMembers =
     map str [''constructor'', ''hasOwnProperty'', ''isPrototypeOf'', ''propertyIsEnumerable'',
              ''toLocaleString'', ''toString'', ''valueOf'', ''__proto__'',
              ''__defineGetter__'', ''__defineSetter__'', ''__lookupGetter__'',
              ''__lookupSetter__'']"

definition lexer_keywords :: "jsstring \<Rightarrow> TokenKind option" where
  "lexer_keywords name =
     (if name = str ''class'' then Some CLASS
      else if name = str ''else'' then Some ELSE
      else if name = str ''false'' then Some FALSE
      else if name = str ''for'' then Some FOR
      else if name = str ''if'' then Some IF
      else if name = str ''let'' then Some LET
      else if name = str ''return'' then Some RETURN
      else if name = str ''super'' then Some SUPER
      else if name = str ''this'' then Some THIS
      else if name = str ''while'' then Some WHILE
      else if name \<in> set objectPrototypeMembers then Some (OBJECT_PROTOTYPE_MEMBER name)
      else None)"

definition isIdentifierStart :: "code_unit option \<Rightarrow> bool" where
  "isIdentifierStart character \<longleftrightarrow> isLetter character \<or> character = Some UNDERSCORE"

definition isIdentifier :: "code_unit option \<Rightarrow> bool" where
  "isIdentifier character \<longleftrightarrow> isIdentifierStart character \<or> isDigit character"

text \<open>
  What a reporter can throw, and the reporter itself. A reporter is a callback with
  effects of its own: it gets the span and the message, and either throws or returns with
  its own state (of type \<open>'u\<close>) updated. The default reporter throws a \<open>SyntaxError\<close>
  whose message interpolates the message, the span's text, its line and its column.
\<close>

datatype failure =
    RangeFailure RangeError
  | SyntaxError jsstring jsstring int int
  | Thrown jsstring

type_synonym 'u ErrorReporter = "FileSpan \<Rightarrow> jsstring \<Rightarrow> 'u \<Rightarrow> failure + 'u"

definition defaultOnError :: "'u ErrorReporter" where
  "defaultOnError sp message u =
     (case span_line sp of
        Inl e \<Rightarrow> Inl (RangeFailure e)
      | Inr l \<Rightarrow>
          (case span_column sp of
             Inl e \<Rightarrow> Inl (RangeFailure e)
           | Inr c \<Rightarrow> Inl (SyntaxError message (span_text sp) l c)))"

text \<open>
  The lexer's fields: the scanner, the anchor \<open>position\<close> and the buffer
  \<open>lastComments\<close>. \<open>commentLog\<close> is a history variable that the source does not have:
  it is written only where the source pushes on \<open>lastComments\<close>, it is never read, and it
  lists every record ever buffered.
\<close>

record ClutchLexer =
  program :: StringScanner
  position :: nat
  lastComments :: "IComment list"
  commentLog :: "IComment list"

text \<open>
  \<open>new ClutchLexer()\<close> leaves \<open>program\<close> and \<open>position\<close> unassigned until
  \<open>scanProgram\<close> sets them; the values here are placeholders.
\<close>

definition newClutchLexer :: ClutchLexer where
  "newClutchLexer =
     \<lparr>program = newStringScanner [], position = 0, lastComments = [], commentLog = []\<rparr>"

definition lexer_substring :: "ClutchLexer \<Rightarrow> jsstring \<times> ClutchLexer" where
  "lexer_substring lx =
     (let start = position lx; end = mPosition (program lx)
      in (scanner_substring (program lx) start end, lx\<lparr>position := end\<rparr>))"

definition clearComments :: "ClutchLexer \<Rightarrow> IComment list \<times> ClutchLexer" where
  "clearComments lx = (lastComments lx, lx\<lparr>lastComments := []\<rparr>)"

definition createToken :: "TokenKind \<Rightarrow> jsstring \<Rightarrow> ClutchLexer \<Rightarrow> Token \<times> ClutchLexer" where
  "createToken k content lx =
     (let (cs, lx1) = clearComments lx
      in (\<lparr>kind = k, lexeme = content, comments = cs,
           offset = int (position lx1) - int (length content)\<rparr>, lx1))"

text \<open>\<open>createToken(kind)\<close> with the default \<open>content = this.substring()\<close>.\<close>

definition createToken0 :: "TokenKind \<Rightarrow> ClutchLexer \<Rightarrow> Token \<times> ClutchLexer" where
  "createToken0 k lx = (let (content, lx1) = lexer_substring lx in createToken k content lx1)"

definition reportError :: "'u ErrorReporter \<Rightarrow> jsstring \<Rightarrow> ClutchLexer \<Rightarrow> 'u \<Rightarrow> failure + 'u" where
  "reportError onError error lx u =
     (let offset = int (position lx)
      in case fst (span (source (program lx)) offset (offset + 1)) of
           Inl e \<Rightarrow> Inl (RangeFailure e)
         | Inr sp \<Rightarrow> onError sp error u)"

function scanPredicate :: "(code_unit option \<Rightarrow> bool) \<Rightarrow> StringScanner \<Rightarrow> StringScanner" where
  "scanPredicate predicate sc =
     (if hasNext sc then
        (if \<not> predicate (peek sc) then sc
         else scanPredicate predicate (snd (advance sc)))
      else sc)"
  by pat_completeness auto
termination
  by (relation "measure (\<lambda>(p, sc). scanner_length sc - mPosition sc)")
     (auto simp: hasNext_def advance_def scanner_length_def)

declare scanPredicate.simps [simp del]

function advanceToEOL :: "StringScanner \<Rightarrow> StringScanner" where
  "advanceToEOL sc =
     (if hasNext sc then
        (let (m1, sc1) = match_char sc LF in
         if m1 then sc1
         else (let (m2, sc2) = match_char sc1 CR in
               if m2 then snd (match_char sc2 LF)
               else advanceToEOL (snd (advance sc2))))
      else sc)"
  by pat_completeness auto
termination
  by (relation "measure (\<lambda>sc. scanner_length sc - mPosition sc)")
     (auto simp: hasNext_def advance_def match_char_def scanner_length_def split: if_splits)

declare advanceToEOL.simps [simp del]

text \<open>The loop of \<open>scanString\<close>: whether the closing quote was matched, and the scanner.\<close>

function scanString_loop :: "StringScanner \<Rightarrow> bool \<times> StringScanner" where
  "scanString_loop sc =
     (if hasNext sc then
        (let (m, sc1) = match_char sc SQUOTE in
         if m then (True, sc1)
         else scanString_loop (snd (advance sc1)))
      else (False, sc))"
  by pat_completeness auto
termination
  by (relation "measure (\<lambda>sc. scanner_length sc - mPosition sc)")
     (auto simp: hasNext_def advance_def match_char_def scanner_length_def split: if_splits)

declare scanString_loop.simps [simp del]

definition scanString ::
  "'u ErrorReporter \<Rightarrow> ClutchLexer \<Rightarrow> 'u \<Rightarrow> failure + (Token \<times> ClutchLexer \<times> 'u)" where
  "scanString onError lx u =
     (case scanString_loop (program lx) of
        (True, sc) \<Rightarrow>
          (let lx1 = lx\<lparr>program := sc, position := position lx + 1\<rparr>;
               (lexeme0, lx2) = lexer_substring lx1;
               lexeme1 = substring lexeme0 0 (int (length lexeme0) - 1);
               (t, lx3) = createToken STRING lexeme1 lx2
           in Inr (t, lx3, u))
      | (False, sc) \<Rightarrow>
          (let lx1 = lx\<lparr>program := sc\<rparr>
           in case reportError onError (str ''Unterminated string'') lx1 u of
                Inl e \<Rightarrow> Inl e
              | Inr u' \<Rightarrow>
                  (let lx2 = lx1\<lparr>position := position lx1 + 1\<rparr>;
                       (t, lx3) = createToken0 STRING lx2
                   in Inr (t, lx3, u'))))"

definition scanHexNumber :: "ClutchLexer \<Rightarrow> Token \<times> ClutchLexer" where
  "scanHexNumber lx =
     createToken0 NUMBER (lx\<lparr>program := scanPredicate isHexadecimal (program lx)\<rparr>)"

definition scanDigits :: "ClutchLexer \<Rightarrow> Token \<times> ClutchLexer" where
  "scanDigits lx = createToken0 NUMBER (lx\<lparr>program := scanPredicate isDigit (program lx)\<rparr>)"

function scanNumber_loop :: "StringScanner \<Rightarrow> StringScanner" where
  "scanNumber_loop sc =
     (if hasNext sc then
        (let next = peek sc; (m, sc1) = match_char sc PERIOD_CHAR in
         if m then sc1
         else if \<not> isDigit next then sc1
         else scanNumber_loop (snd (advance sc1)))
      else sc)"
  by pat_completeness auto
termination
  by (relation "measure (\<lambda>sc. scanner_length sc - mPosition sc)")
     (auto simp: hasNext_def advance_def match_char_def scanner_length_def split: if_splits)

declare scanNumber_loop.simps [simp del]

text \<open>\<open>a || b\<close> on two matches: the second match is tried only when the first fails.\<close>

definition match_either :: "StringScanner \<Rightarrow> code_unit \<Rightarrow> code_unit \<Rightarrow> bool \<times> StringScanner" where
  "match_either sc a b =
     (case match_char sc a of
        (True, sc1) \<Rightarrow> (True, sc1)
      | (False, sc1) \<Rightarrow> match_char sc1 b)"

definition scanNumber :: "code_unit option \<Rightarrow> ClutchLexer \<Rightarrow> Token \<times> ClutchLexer" where
  "scanNumber starting lx =
     (let (hex, sc1) = (if starting = Some ZERO_CHAR
                        then match_either (program lx) UPPER_X LOWER_X
                        else (False, program lx))
      in if hex then scanHexNumber (lx\<lparr>program := sc1\<rparr>)
         else (case match_either sc1 UPPER_E LOWER_E of
                 (True, sc2) \<Rightarrow> scanDigits (lx\<lparr>program := sc2\<rparr>)
               | (False, sc2) \<Rightarrow> scanDigits (lx\<lparr>program := scanNumber_loop sc2\<rparr>)))"

definition scanIdentifierOrKeyword :: "ClutchLexer \<Rightarrow> Token \<times> ClutchLexer" where
  "scanIdentifierOrKeyword lx =
     (let lx1 = lx\<lparr>program := scanPredicate isIdentifier (program lx)\<rparr>;
          (identifierOrKeyword, lx2) = lexer_substring lx1;
          k = (case lexer_keywords identifierOrKeyword of Some kw \<Rightarrow> kw | None \<Rightarrow> IDENTIFIER);
          (cs, lx3) = clearComments lx2
      in (\<lparr>kind = k, lexeme = identifierOrKeyword, comments = cs,
           offset = int (position lx3) - int (length identifierOrKeyword)\<rparr>, lx3))"

text \<open>
  \<open>scanSlash\<close>. In the object literal of the comment record \<open>lexeme\<close> is evaluated
  first, and \<open>this.substring()\<close> moves the anchor to the cursor, so \<open>offset\<close> reads the
  anchor after the move.
\<close>

definition scanSlash :: "ClutchLexer \<Rightarrow> Token option \<times> ClutchLexer" where
  "scanSlash lx =
     (case match_char (program lx) SLASH_CHAR of
        (True, sc1) \<Rightarrow>
          (let lx1 = lx\<lparr>program := advanceToEOL sc1\<rparr>;
               (s, lx2) = lexer_substring lx1;
               c = \<lparr>comment_lexeme = trim s, comment_offset = int (position lx2)\<rparr>
           in (None, lx2\<lparr>lastComments := lastComments lx2 @ [c],
                          commentLog := commentLog lx2 @ [c]\<rparr>))
      | (False, sc1) \<Rightarrow>
          (case match_char sc1 EQUALS_CHAR of
             (m, sc2) \<Rightarrow>
               (let (t, lx') = createToken0 (if m then SLASH_BY else SLASH) (lx\<lparr>program := sc2\<rparr>)
                in (Some t, lx'))))"

text \<open>
  The operator cases of \<open>scanToken\<close> test up to three code units in order and create
  the token of the first that matches, or of the bare operator.
\<close>

definition token1 :: "TokenKind \<Rightarrow> ClutchLexer \<Rightarrow> Token option \<times> ClutchLexer" where
  "token1 k lx = (let (t, lx') = createToken0 k lx in (Some t, lx'))"

definition lexer_match :: "ClutchLexer \<Rightarrow> code_unit \<Rightarrow> bool \<times> ClutchLexer" where
  "lexer_match lx pattern =
     (let (m, sc) = match_char (program lx) pattern in (m, lx\<lparr>program := sc\<rparr>))"

text \<open>A branch of \<open>scanToken\<close> that returns without calling the reporter.\<close>

definition emit ::
  "'u \<Rightarrow> Token option \<times> ClutchLexer \<Rightarrow> failure + (Token option \<times> ClutchLexer \<times> 'u)" where
  "emit u r = Inr (fst r, snd r, u)"

definition fromCharCode :: "code_unit option \<Rightarrow> jsstring" where
  "fromCharCode c = (case c of None \<Rightarrow> [0] | Some n \<Rightarrow> [n])"

definition scanToken ::
  "'u ErrorReporter \<Rightarrow> ClutchLexer \<Rightarrow> 'u \<Rightarrow> failure + (Token option \<times> ClutchLexer \<times> 'u)" where
  "scanToken onError lx0 u =
     (let (character, sc) = advance (program lx0); lx = lx0\<lparr>program := sc\<rparr>
      in
      if character = Some LPAREN then emit u (token1 LEFT_PAREN lx)
      else if character = Some RPAREN then emit u (token1 RIGHT_PAREN lx)
      else if character = Some LCURLY then emit u (token1 LEFT_CURLY lx)
      else if character = Some RCURLY then emit u (token1 RIGHT_CURLY lx)
      else if character = Some PERIOD_CHAR then emit u (token1 PERIOD lx)
      else if character = Some PLUS_CHAR then
        (case lexer_match lx EQUALS_CHAR of
           (True, lx1) \<Rightarrow> emit u (token1 PLUS_BY lx1)
         | (False, lx1) \<Rightarrow>
             (case lexer_match lx1 PLUS_CHAR of
                (True, lx2) \<Rightarrow> emit u (token1 INCREMENT lx2)
              | (False, lx2) \<Rightarrow> emit u (token1 PLUS lx2)))
      else if character = Some MINUS_CHAR then
        (case lexer_match lx RANGLE of
           (True, lx1) \<Rightarrow> emit u (token1 ARROW lx1)
         | (False, lx1) \<Rightarrow>
             (case lexer_match lx1 EQUALS_CHAR of
                (True, lx2) \<Rightarrow> emit u (token1 MINUS_BY lx2)
              | (False, lx2) \<Rightarrow>
                  (case lexer_match lx2 MINUS_CHAR of
                     (True, lx3) \<Rightarrow> emit u (token1 DECREMENT lx3)
                   | (False, lx3) \<Rightarrow> emit u (token1 MINUS lx3))))
      else if character = Some STAR_CHAR then
        (case lexer_match lx EQUALS_CHAR of
           (True, lx1) \<Rightarrow> emit u (token1 STAR_BY lx1)
         | (False, lx1) \<Rightarrow> emit u (token1 STAR lx1))
      else if character = Some EQUALS_CHAR then
        (case lexer_match lx EQUALS_CHAR of
           (True, lx1) \<Rightarrow>
             (case lexer_match lx1 EQUALS_CHAR of
                (True, lx2) \<Rightarrow> emit u (token1 IDENTICAL lx2)
              | (False, lx2) \<Rightarrow> emit u (token1 EQUALS lx2))
         | (False, lx1) \<Rightarrow> emit u (token1 ASSIGN lx1))
      else if character = Some LANGLE then
        (case lexer_match lx EQUALS_CHAR of
           (True, lx1) \<Rightarrow> emit u (token1 LESS_THAN_OR_EQUAL lx1)
         | (False, lx1) \<Rightarrow>
             (case lexer_match lx1 LANGLE of
                (True, lx2) \<Rightarrow> emit u (token1 LEFT_SHIFT lx2)
              | (False, lx2) \<Rightarrow> emit u (token1 LESS_THAN lx2)))
      else if character = Some RANGLE then
        (case lexer_match lx EQUALS_CHAR of
           (True, lx1) \<Rightarrow> emit u (token1 GREATER_THAN_OR_EQUAL lx1)
         | (False, lx1) \<Rightarrow>
             (case lexer_match lx1 RANGLE of
                (True, lx2) \<Rightarrow> emit u (token1 RIGHT_SHIFT lx2)
              | (False, lx2) \<Rightarrow> emit u (token1 GREATER_THAN lx2)))
      else if character = Some SLASH_CHAR then emit u (scanSlash lx)
      else if character = Some SQUOTE then
        (case scanString onError lx u of
           Inl e \<Rightarrow> Inl e
         | Inr (t, lx', u') \<Rightarrow> Inr (Some t, lx', u'))
      else if character = Some PIPE then
        (case lexer_match lx PIPE of
           (True, lx1) \<Rightarrow> emit u (token1 OR lx1)
         | (False, lx1) \<Rightarrow> emit u (token1 LOGICAL_OR lx1))
      else if character = Some AND_CHAR then
        (case lexer_match lx AND_CHAR of
           (True, lx1) \<Rightarrow> emit u (token1 AND lx1)
         | (False, lx1) \<Rightarrow> emit u (token1 LOGICAL_AND lx1))
      else if character = Some TILDE then emit u (token1 LOGICAL_NOT lx)
      else if character = Some CARET then emit u (token1 LOGICAL_XOR lx)
      else if character = Some EXCLAIM then
        (case lexer_match lx EQUALS_CHAR of
           (True, lx1) \<Rightarrow>
             (case lexer_match lx1 EQUALS_CHAR of
                (True, lx2) \<Rightarrow> emit u (token1 NOT_IDENTICAL lx2)
              | (False, lx2) \<Rightarrow> emit u (token1 NOT_EQUALS lx2))
         | (False, lx1) \<Rightarrow> emit u (token1 NEGATE lx1))
      else if isWhiteSpace character then
        emit u (None, lx\<lparr>position := mPosition (program lx)\<rparr>)
      else if isDigit character then
        (let (t, lx') = scanNumber character lx in emit u (Some t, lx'))
      else if isIdentifierStart character then
        (let (t, lx') = scanIdentifierOrKeyword lx in emit u (Some t, lx'))
      else
        (case reportError onError
                (str ''Unexpected character '' @ [DQUOTE] @ fromCharCode character @ [DQUOTE]) lx u of
           Inl e \<Rightarrow> Inl e
         | Inr u' \<Rightarrow> Inr (None, lx, u')))"


section \<open>Progress of the cursor\<close>

text \<open>
  Every scanner operation keeps the file and moves the cursor forward only, never past
  the end when it started inside; the facts below are what the termination of the main
  loop and the invariants of the lexer rest on.
\<close>

definition sc_ext :: "StringScanner \<Rightarrow> StringScanner \<Rightarrow> bool" where
  "sc_ext sc sc' \<longleftrightarrow>
     source sc' = source sc \<and> mPosition sc \<le> mPosition sc' \<and>
     (mPosition sc \<le> scanner_length sc \<longrightarrow> mPosition sc' \<le> scanner_length sc)"

definition lx_ext :: "ClutchLexer \<Rightarrow> ClutchLexer \<Rightarrow> bool" where
  "lx_ext lx lx' \<longleftrightarrow>
     sc_ext (program lx) (program lx') \<and> position lx' = position lx \<and>
     lastComments lx' = lastComments lx \<and> commentLog lx' = commentLog lx"

lemma sc_ext_refl [simp]: "sc_ext sc sc"
  by (simp add: sc_ext_def)

lemma sc_ext_trans: "sc_ext a b \<Longrightarrow> sc_ext b c \<Longrightarrow> sc_ext a c"
  by (auto simp: sc_ext_def scanner_length_def)

lemma lx_ext_refl [simp]: "lx_ext lx lx"
  by (simp add: lx_ext_def)

lemma lx_ext_trans: "lx_ext a b \<Longrightarrow> lx_ext b c \<Longrightarrow> lx_ext a c"
  by (auto simp: lx_ext_def intro: sc_ext_trans)

lemma match_char_ext: "match_char sc p = (m, sc') \<Longrightarrow> sc_ext sc sc'"
  by (auto simp: match_char_def sc_ext_def peek_def charCodeAt_def scanner_length_def
      split: if_splits)

lemma advance_ext: "hasNext sc \<Longrightarrow> sc_ext sc (snd (advance sc))"
  by (auto simp: advance_def sc_ext_def hasNext_def scanner_length_def)

lemma match_either_ext: "match_either sc a b = (m, sc') \<Longrightarrow> sc_ext sc sc'"
  by (auto simp: match_either_def split: prod.splits bool.splits
      dest!: match_char_ext intro: sc_ext_trans)

lemma scanPredicate_ext: "sc_ext sc (scanPredicate p sc)"
proof (induction p sc rule: scanPredicate.induct)
  case (1 p sc)
  show ?case
  proof (cases "hasNext sc \<and> p (peek sc)")
    case True
    then have "sc_ext (snd (advance sc)) (scanPredicate p (snd (advance sc)))"
      using "1.IH" by simp
    with True show ?thesis
      by (subst scanPredicate.simps) (auto intro: sc_ext_trans advance_ext)
  next
    case False
    then show ?thesis by (subst scanPredicate.simps) auto
  qed
qed

lemma advanceToEOL_ext: "sc_ext sc (advanceToEOL sc)"
proof (induction sc rule: advanceToEOL.induct)
  case (1 sc)
  show ?case
  proof (cases "hasNext sc")
    case False
    then show ?thesis by (subst advanceToEOL.simps) simp
  next
    case True
    show ?thesis
    proof (cases "peek sc = Some LF \<or> peek sc = Some CR")
      case True
      with \<open>hasNext sc\<close> show ?thesis
        apply (subst advanceToEOL.simps)
        apply (auto simp: match_char_def split: prod.splits bool.splits if_splits)
        apply (auto simp: sc_ext_def peek_def charCodeAt_def scanner_length_def hasNext_def split: if_splits)
        done
    next
      case False
      then have m: "match_char sc LF = (False, sc)" "match_char sc CR = (False, sc)"
        by (auto simp: match_char_def)
      have "sc_ext (snd (advance sc)) (advanceToEOL (snd (advance sc)))"
        by (rule "1.IH" [OF True refl m(1) [symmetric] _ refl m(2) [symmetric]]) simp_all
      then show ?thesis using True m
        by (subst advanceToEOL.simps) (auto intro: sc_ext_trans advance_ext)
    qed
  qed
qed

lemma scanString_loop_ext: "sc_ext sc (snd (scanString_loop sc))"
proof (induction sc rule: scanString_loop.induct)
  case (1 sc)
  show ?case
  proof (cases "hasNext sc")
    case False
    then show ?thesis by (subst scanString_loop.simps) simp
  next
    case True
    show ?thesis
    proof (cases "peek sc = Some SQUOTE")
      case q: True
      then have "match_char sc SQUOTE = (True, sc\<lparr>mPosition := mPosition sc + 1\<rparr>)"
        by (simp add: match_char_def)
      moreover have "sc_ext sc (sc\<lparr>mPosition := mPosition sc + 1\<rparr>)"
        using True by (simp add: sc_ext_def hasNext_def scanner_length_def)
      ultimately show ?thesis using True by (subst scanString_loop.simps) simp
    next
      case False
      then have m: "match_char sc SQUOTE = (False, sc)" by (simp add: match_char_def)
      have "sc_ext (snd (advance sc)) (snd (scanString_loop (snd (advance sc))))"
        by (rule "1.IH" [OF True refl m [symmetric]]) simp
      then show ?thesis using True m
        by (subst scanString_loop.simps) (auto intro: sc_ext_trans advance_ext)
    qed
  qed
qed

lemma scanNumber_loop_ext: "sc_ext sc (scanNumber_loop sc)"
proof (induction sc rule: scanNumber_loop.induct)
  case (1 sc)
  show ?case
  proof (cases "hasNext sc")
    case False
    then show ?thesis by (subst scanNumber_loop.simps) simp
  next
    case True
    show ?thesis
    proof (cases "peek sc = Some PERIOD_CHAR")
      case q: True
      then have "match_char sc PERIOD_CHAR = (True, sc\<lparr>mPosition := mPosition sc + 1\<rparr>)"
        by (simp add: match_char_def)
      moreover have "sc_ext sc (sc\<lparr>mPosition := mPosition sc + 1\<rparr>)"
        using True by (simp add: sc_ext_def hasNext_def scanner_length_def)
      ultimately show ?thesis using True by (subst scanNumber_loop.simps) (simp add: Let_def)
    next
      case False
      then have m: "match_char sc PERIOD_CHAR = (False, sc)" by (simp add: match_char_def)
      show ?thesis
      proof (cases "isDigit (peek sc)")
        case d: True
        have "sc_ext (snd (advance sc)) (scanNumber_loop (snd (advance sc)))"
          using d by (intro "1.IH" [OF True refl refl m [symmetric]]) simp_all
        then show ?thesis using True m d
          by (subst scanNumber_loop.simps) (auto simp: Let_def intro: sc_ext_trans advance_ext)
      next
        case d: False
        then show ?thesis using True m by (subst scanNumber_loop.simps) (simp add: Let_def)
      qed
    qed
  qed
qed


lemma lexer_match_ext: "lexer_match lx p = (m, lx') \<Longrightarrow> lx_ext lx lx'"
  by (auto simp: lexer_match_def lx_ext_def split: prod.splits dest: match_char_ext)

lemma createToken0_eq:
  "createToken0 k lx =
     (\<lparr>kind = k,
       lexeme = scanner_substring (program lx) (position lx) (mPosition (program lx)),
       comments = lastComments lx,
       offset = int (mPosition (program lx)) -
                int (length (scanner_substring (program lx) (position lx) (mPosition (program lx))))\<rparr>,
      lx\<lparr>position := mPosition (program lx), lastComments := []\<rparr>)"
  by (simp add: createToken0_def createToken_def lexer_substring_def clearComments_def Let_def)

lemma token1_eq: "token1 k lx = (Some (fst (createToken0 k lx)), snd (createToken0 k lx))"
  by (simp add: token1_def split_beta)



definition op_res :: "ClutchLexer \<Rightarrow> 'u \<Rightarrow> Token option \<Rightarrow> ClutchLexer \<Rightarrow> 'u \<Rightarrow> bool" where
  "op_res lx u topt lx' u' \<longleftrightarrow> (\<exists>k l. lx_ext lx l \<and> token1 k l = (topt, lx') \<and> u' = u)"

lemma emit_eq: "emit u r = Inr (topt, lx', u') \<longleftrightarrow> r = (topt, lx') \<and> u' = u"
  by (cases r) (auto simp: emit_def)

lemma shape1: "emit u (token1 k l) = Inr (topt, lx', u') \<Longrightarrow> lx_ext lx l \<Longrightarrow> op_res lx u topt lx' u'"
  by (auto simp: emit_eq op_res_def)

lemma shape2:
  "(case lexer_match lx p of
      (True, l1) \<Rightarrow> emit u (token1 k1 l1)
    | (False, l1) \<Rightarrow> emit u (token1 k2 l1)) = Inr (topt, lx', u') \<Longrightarrow>
   lx_ext lx0 lx \<Longrightarrow> op_res lx0 u topt lx' u'"
  by (cases "lexer_match lx p")
     (auto split: bool.splits dest!: lexer_match_ext intro!: shape1 intro: lx_ext_trans)

lemma shape3:
  "(case lexer_match lx p of
      (True, l1) \<Rightarrow> emit u (token1 k1 l1)
    | (False, l1) \<Rightarrow>
        (case lexer_match l1 q of
           (True, l2) \<Rightarrow> emit u (token1 k2 l2)
         | (False, l2) \<Rightarrow> emit u (token1 k3 l2))) = Inr (topt, lx', u') \<Longrightarrow>
   lx_ext lx0 lx \<Longrightarrow> op_res lx0 u topt lx' u'"
  by (cases "lexer_match lx p")
     (auto split: bool.splits dest!: lexer_match_ext intro: shape1 shape2 lx_ext_trans)

lemma shape4:
  "(case lexer_match lx p of
      (True, l1) \<Rightarrow> emit u (token1 k1 l1)
    | (False, l1) \<Rightarrow>
        (case lexer_match l1 q of
           (True, l2) \<Rightarrow> emit u (token1 k2 l2)
         | (False, l2) \<Rightarrow>
             (case lexer_match l2 r of
                (True, l3) \<Rightarrow> emit u (token1 k3 l3)
              | (False, l3) \<Rightarrow> emit u (token1 k4 l3)))) = Inr (topt, lx', u') \<Longrightarrow>
   lx_ext lx0 lx \<Longrightarrow> op_res lx0 u topt lx' u'"
  by (cases "lexer_match lx p")
     (auto split: bool.splits dest!: lexer_match_ext intro: shape1 shape3 lx_ext_trans)

lemma shape_eq:
  "(case lexer_match lx p of
      (True, l1) \<Rightarrow>
        (case lexer_match l1 q of
           (True, l2) \<Rightarrow> emit u (token1 k1 l2)
         | (False, l2) \<Rightarrow> emit u (token1 k2 l2))
    | (False, l1) \<Rightarrow> emit u (token1 k3 l1)) = Inr (topt, lx', u') \<Longrightarrow>
   lx_ext lx0 lx \<Longrightarrow> op_res lx0 u topt lx' u'"
  by (cases "lexer_match lx p")
     (auto split: bool.splits dest!: lexer_match_ext intro: shape1 shape2 lx_ext_trans)


lemma scanToken_cases [consumes 1, case_names op slash string ws number ident unknown]:
  assumes "scanToken onError lx0 u = Inr (topt, lx', u')"
  obtains
    (op) "op_res (lx0\<lparr>program := snd (advance (program lx0))\<rparr>) u topt lx' u'"
  | (slash) "scanSlash (lx0\<lparr>program := snd (advance (program lx0))\<rparr>) = (topt, lx')" "u' = u"
  | (string) t where
      "scanString onError (lx0\<lparr>program := snd (advance (program lx0))\<rparr>) u = Inr (t, lx', u')"
      "topt = Some t"
  | (ws) "topt = None" "u' = u"
      "lx' = lx0\<lparr>program := snd (advance (program lx0)),
                 position := mPosition (snd (advance (program lx0)))\<rparr>"
  | (number) t c where
      "scanNumber c (lx0\<lparr>program := snd (advance (program lx0))\<rparr>) = (t, lx')"
      "topt = Some t" "u' = u"
  | (ident) t where
      "scanIdentifierOrKeyword (lx0\<lparr>program := snd (advance (program lx0))\<rparr>) = (t, lx')"
      "topt = Some t" "u' = u"
  | (unknown) msg where
      "reportError onError msg (lx0\<lparr>program := snd (advance (program lx0))\<rparr>) u = Inr u'"
      "topt = None" "lx' = lx0\<lparr>program := snd (advance (program lx0))\<rparr>"
proof -
  obtain c sc where adv: "advance (program lx0) = (c, sc)" by fastforce
  define lx where "lx = lx0\<lparr>program := sc\<rparr>"
  note rules = op [unfolded adv snd_conv, folded lx_def] slash [unfolded adv snd_conv, folded lx_def]
    string [unfolded adv snd_conv, folded lx_def] ws [unfolded adv snd_conv, folded lx_def]
    number [unfolded adv snd_conv, folded lx_def] ident [unfolded adv snd_conv, folded lx_def]
    unknown [unfolded adv snd_conv, folded lx_def]
  have H: "scanToken onError lx0 u = Inr (topt, lx', u')" by (rule assms(1))
  note H' = H [unfolded scanToken_def adv Let_def prod.case, folded lx_def]
  have r0: "lx_ext lx lx" by simp
  consider
    (c0) "c = Some LPAREN" |
    (c1) "c = Some RPAREN" |
    (c2) "c = Some LCURLY" |
    (c3) "c = Some RCURLY" |
    (c4) "c = Some PERIOD_CHAR" |
    (c5) "c = Some PLUS_CHAR" |
    (c6) "c = Some MINUS_CHAR" |
    (c7) "c = Some STAR_CHAR" |
    (c8) "c = Some EQUALS_CHAR" |
    (c9) "c = Some LANGLE" |
    (c10) "c = Some RANGLE" |
    (c11) "c = Some PIPE" |
    (c12) "c = Some AND_CHAR" |
    (c13) "c = Some TILDE" |
    (c14) "c = Some CARET" |
    (c15) "c = Some EXCLAIM" |
    (cslash) "c = Some SLASH_CHAR" | (cquote) "c = Some SQUOTE" |
    (other) "c \<notin> {Some LPAREN, Some RPAREN, Some LCURLY, Some RCURLY, Some PERIOD_CHAR, Some PLUS_CHAR, Some MINUS_CHAR, Some STAR_CHAR, Some EQUALS_CHAR, Some LANGLE, Some RANGLE, Some PIPE, Some AND_CHAR, Some TILDE, Some CARET, Some EXCLAIM, Some SLASH_CHAR, Some SQUOTE}"
    by blast
  then show thesis
  proof cases
    case c0
    have "op_res lx u topt lx' u'"
      using H' unfolding c0 by simp (erule shape1 [OF _ r0])
    then show thesis by (rule rules(1))
  next
    case c1
    have "op_res lx u topt lx' u'"
      using H' unfolding c1 by simp (erule shape1 [OF _ r0])
    then show thesis by (rule rules(1))
  next
    case c2
    have "op_res lx u topt lx' u'"
      using H' unfolding c2 by simp (erule shape1 [OF _ r0])
    then show thesis by (rule rules(1))
  next
    case c3
    have "op_res lx u topt lx' u'"
      using H' unfolding c3 by simp (erule shape1 [OF _ r0])
    then show thesis by (rule rules(1))
  next
    case c4
    have "op_res lx u topt lx' u'"
      using H' unfolding c4 by simp (erule shape1 [OF _ r0])
    then show thesis by (rule rules(1))
  next
    case c5
    have "op_res lx u topt lx' u'"
      using H' unfolding c5 by simp (erule shape3 [OF _ r0])
    then show thesis by (rule rules(1))
  next
    case c6
    have "op_res lx u topt lx' u'"
      using H' unfolding c6 by simp (erule shape4 [OF _ r0])
    then show thesis by (rule rules(1))
  next
    case c7
    have "op_res lx u topt lx' u'"
      using H' unfolding c7 by simp (erule shape2 [OF _ r0])
    then show thesis by (rule rules(1))
  next
    case c8
    have "op_res lx u topt lx' u'"
      using H' unfolding c8 by simp (erule shape_eq [OF _ r0])
    then show thesis by (rule rules(1))
  next
    case c9
    have "op_res lx u topt lx' u'"
      using H' unfolding c9 by simp (erule shape3 [OF _ r0])
    then show thesis by (rule rules(1))
  next
    case c10
    have "op_res lx u topt lx' u'"
      using H' unfolding c10 by simp (erule shape3 [OF _ r0])
    then show thesis by (rule rules(1))
  next
    case c11
    have "op_res lx u topt lx' u'"
      using H' unfolding c11 by simp (erule shape2 [OF _ r0])
    then show thesis by (rule rules(1))
  next
    case c12
    have "op_res lx u topt lx' u'"
      using H' unfolding c12 by simp (erule shape2 [OF _ r0])
    then show thesis by (rule rules(1))
  next
    case c13
    have "op_res lx u topt lx' u'"
      using H' unfolding c13 by simp (erule shape1 [OF _ r0])
    then show thesis by (rule rules(1))
  next
    case c14
    have "op_res lx u topt lx' u'"
      using H' unfolding c14 by simp (erule shape1 [OF _ r0])
    then show thesis by (rule rules(1))
  next
    case c15
    have "op_res lx u topt lx' u'"
      using H' unfolding c15 by simp (erule shape_eq [OF _ r0])
    then show thesis by (rule rules(1))
  next
    case cslash
    have "scanSlash lx = (topt, lx') \<and> u' = u"
      using H' unfolding cslash by (simp add: emit_eq)
    then show thesis using rules(2) by blast
  next
    case cquote
    have "\<exists>t. scanString onError lx u = Inr (t, lx', u') \<and> topt = Some t"
      using H' unfolding cquote by (auto split: sum.splits prod.splits)
    then show thesis using rules(3) by blast
  next
    case other
    note H'' = H' other
    show thesis
    proof (cases "isWhiteSpace c")
      case True
      with H'' show thesis using rules(4) by (simp add: emit_eq lx_def)
    next
      case nws: False
      show thesis
      proof (cases "isDigit c")
        case True
        with H'' nws show thesis using rules(5) [of c]
          by (cases "scanNumber c lx") (simp add: emit_eq)
      next
        case nd: False
        show thesis
        proof (cases "isIdentifierStart c")
          case True
          with H'' nws nd show thesis using rules(6)
            by (cases "scanIdentifierOrKeyword lx") (simp add: emit_eq)
        next
          case False
          with H'' nws nd
          have "\<exists>msg. reportError onError msg lx u = Inr u' \<and> topt = None \<and> lx' = lx"
            by (simp split: sum.splits) blast
          then show thesis using rules(7) by blast
        qed
      qed
    qed
  qed
qed


definition branch_post :: "ClutchLexer \<Rightarrow> Token option \<Rightarrow> ClutchLexer \<Rightarrow> bool" where
  "branch_post lx topt lx' \<longleftrightarrow>
     sc_ext (program lx) (program lx') \<and>
     (position lx < mPosition (program lx) \<and> mPosition (program lx) \<le> scanner_length (program lx) \<longrightarrow>
        position lx \<le> position lx' \<and> position lx' \<le> mPosition (program lx') \<and>
        (case topt of
           Some t \<Rightarrow>
             int (position lx) \<le> offset t \<and> offset t \<le> int (position lx') \<and>
             (kind t \<noteq> STRING \<longrightarrow>
                substring (contents (source (program lx))) (offset t)
                  (offset t + int (length (lexeme t))) = lexeme t) \<and>
             comments t = lastComments lx \<and> lastComments lx' = [] \<and>
             commentLog lx' = commentLog lx
         | None \<Rightarrow>
             (lastComments lx' = lastComments lx \<and> commentLog lx' = commentLog lx) \<or>
             (\<exists>c. lastComments lx' = lastComments lx @ [c] \<and>
                  commentLog lx' = commentLog lx @ [c] \<and>
                  comment_offset c = int (mPosition (program lx')))))"

lemma substring_nat:
  "a \<le> b \<Longrightarrow> b \<le> length s \<Longrightarrow> substring s (int a) (int b) = take (b - a) (drop a s)"
  by (simp add: substring_def clamp_index_def Let_def min_def max_def)

lemma length_substring_nat:
  "a \<le> b \<Longrightarrow> b \<le> length s \<Longrightarrow> length (substring s (int a) (int b)) = b - a"
  by (simp add: substring_nat)

lemma length_substring_le: "length (substring s a b) \<le> nat (max a b) - nat (min a b)"
  by (auto simp: substring_def clamp_index_def Let_def min_def max_def)

lemma op_res_post:
  assumes "op_res lx u topt lx' u'"
  shows "branch_post lx topt lx'"
proof -
  from assms obtain k l where l: "lx_ext lx l" and t: "token1 k l = (topt, lx')"
    by (auto simp: op_res_def)
  from l have src: "source (program l) = source (program lx)"
    and mono: "mPosition (program lx) \<le> mPosition (program l)"
    and bnd: "mPosition (program lx) \<le> scanner_length (program lx) \<Longrightarrow>
              mPosition (program l) \<le> scanner_length (program lx)"
    and same: "position l = position lx" "lastComments l = lastComments lx"
      "commentLog l = commentLog lx"
    by (auto simp: lx_ext_def sc_ext_def)
  from t have topt: "topt = Some (fst (createToken0 k l))" and lx': "lx' = snd (createToken0 k l)"
    by (simp_all add: token1_eq)
  have prog: "program lx' = program l" by (simp add: lx' createToken0_eq)
  have ext: "sc_ext (program lx) (program lx')" using l by (simp add: prog lx_ext_def)
  show ?thesis
    unfolding branch_post_def
  proof (intro conjI impI ext)
    assume pre: "position lx < mPosition (program lx) \<and>
      mPosition (program lx) \<le> scanner_length (program lx)"
    define a where "a = position lx"
    define b where "b = mPosition (program l)"
    define s where "s = contents (source (program lx))"
    have ab: "a \<le> b" "b \<le> length s"
      using pre mono bnd by (auto simp: a_def b_def s_def scanner_length_def)
    have lexm: "scanner_substring (program l) a b = take (b - a) (drop a s)"
      using ab by (simp add: scanner_substring_def src substring_nat s_def)
    have off: "int b - int (b - a) = int a" using ab by simp
    have sub: "substring s (int a) (int b) = take (b - a) (drop a s)"
      using ab by (rule substring_nat)
    show "position lx \<le> position lx'" using ab by (simp add: lx' createToken0_eq a_def b_def)
    show "position lx' \<le> mPosition (program lx')" by (simp add: lx' createToken0_eq)
    show "case topt of
           Some t \<Rightarrow>
             int (position lx) \<le> offset t \<and> offset t \<le> int (position lx') \<and>
             (kind t \<noteq> STRING \<longrightarrow>
                substring (contents (source (program lx))) (offset t)
                  (offset t + int (length (lexeme t))) = lexeme t) \<and>
             comments t = lastComments lx \<and> lastComments lx' = [] \<and>
             commentLog lx' = commentLog lx
         | None \<Rightarrow>
             (lastComments lx' = lastComments lx \<and> commentLog lx' = commentLog lx) \<or>
             (\<exists>c. lastComments lx' = lastComments lx @ [c] \<and>
                  commentLog lx' = commentLog lx @ [c] \<and>
                  comment_offset c = int (mPosition (program lx')))"
      using ab
      by (simp add: topt lx' createToken0_eq same a_def [symmetric] b_def [symmetric]
          s_def [symmetric] lexm off sub)
  qed
qed


lemma op_resI: "lx_ext lx l \<Longrightarrow> createToken0 k l = (t, lx') \<Longrightarrow> op_res lx u (Some t) lx' u"
  by (auto simp: op_res_def token1_eq intro!: exI [of _ k] exI [of _ l])

lemma lx_ext_program: "sc_ext (program lx) sc \<Longrightarrow> lx_ext lx (lx\<lparr>program := sc\<rparr>)"
  by (simp add: lx_ext_def)

lemma scanDigits_op: "lx_ext lx l \<Longrightarrow> scanDigits l = (t, lx') \<Longrightarrow> op_res lx u (Some t) lx' u"
  unfolding scanDigits_def
  by (erule op_resI [OF lx_ext_trans [OF _ lx_ext_program [OF scanPredicate_ext]]])

lemma scanHexNumber_op:
  "lx_ext lx l \<Longrightarrow> scanHexNumber l = (t, lx') \<Longrightarrow> op_res lx u (Some t) lx' u"
  unfolding scanHexNumber_def
  by (erule op_resI [OF lx_ext_trans [OF _ lx_ext_program [OF scanPredicate_ext]]])

lemma scanNumber_op:
  assumes "scanNumber c lx = (t, lx')"
  shows "op_res lx u (Some t) lx' u"
proof -
  obtain hex sc1 where h: "(if c = Some ZERO_CHAR
                        then match_either (program lx) UPPER_X LOWER_X
                        else (False, program lx)) = (hex, sc1)" by fastforce
  then have e1: "sc_ext (program lx) sc1"
    by (auto split: if_splits dest: match_either_ext)
  obtain me sc2 where m: "match_either sc1 UPPER_E LOWER_E = (me, sc2)" by fastforce
  then have e2: "sc_ext (program lx) sc2"
    using e1 by (blast intro: sc_ext_trans dest: match_either_ext)
  have e3: "sc_ext (program lx) (scanNumber_loop sc2)"
    using e2 scanNumber_loop_ext by (rule sc_ext_trans)
  from assms show ?thesis
    unfolding scanNumber_def h Let_def prod.case m
    using e1 e2 e3
    by (auto split: if_splits bool.splits intro: scanDigits_op scanHexNumber_op lx_ext_program)
qed

lemma scanIdentifierOrKeyword_op:
  assumes "scanIdentifierOrKeyword lx = (t, lx')"
  shows "op_res lx u (Some t) lx' u"
proof -
  define l where "l = lx\<lparr>program := scanPredicate isIdentifier (program lx)\<rparr>"
  define k where "k = (case lexer_keywords (fst (lexer_substring l)) of Some kw \<Rightarrow> kw
                       | None \<Rightarrow> IDENTIFIER)"
  have "scanIdentifierOrKeyword lx = createToken0 k l"
    by (simp add: scanIdentifierOrKeyword_def createToken0_def createToken_def Let_def split_beta
        l_def k_def)
  moreover have "lx_ext lx l" unfolding l_def by (rule lx_ext_program [OF scanPredicate_ext])
  ultimately show ?thesis using assms by (auto intro: op_resI)
qed

lemma scanSlash_post:
  assumes "scanSlash lx = (topt, lx')"
  shows "branch_post lx topt lx'"
proof (cases "fst (match_char (program lx) SLASH_CHAR)")
  case True
  obtain sc1 where m: "match_char (program lx) SLASH_CHAR = (True, sc1)"
    using True by (cases "match_char (program lx) SLASH_CHAR") simp
  define sc2 where "sc2 = advanceToEOL sc1"
  have ext: "sc_ext (program lx) sc2"
    unfolding sc2_def using match_char_ext [OF m] advanceToEOL_ext by (rule sc_ext_trans)
  from assms have lx': "lx' = lx\<lparr>program := sc2, position := mPosition sc2,
      lastComments := lastComments lx @ [\<lparr>comment_lexeme = trim (scanner_substring sc2 (position lx) (mPosition sc2)),
         comment_offset = int (mPosition sc2)\<rparr>],
      commentLog := commentLog lx @ [\<lparr>comment_lexeme = trim (scanner_substring sc2 (position lx) (mPosition sc2)),
         comment_offset = int (mPosition sc2)\<rparr>]\<rparr>" and topt: "topt = None"
    by (simp_all add: scanSlash_def m Let_def lexer_substring_def sc2_def)
  show ?thesis
    using ext unfolding branch_post_def by (auto simp: lx' topt sc_ext_def)
next
  case False
  then obtain sc1 where m: "match_char (program lx) SLASH_CHAR = (False, sc1)"
    by (cases "match_char (program lx) SLASH_CHAR") simp
  obtain m2 sc2 where m2: "match_char sc1 EQUALS_CHAR = (m2, sc2)" by fastforce
  have ext: "sc_ext (program lx) sc2"
    using match_char_ext [OF m] match_char_ext [OF m2] by (rule sc_ext_trans)
  from assms have "token1 (if m2 then SLASH_BY else SLASH) (lx\<lparr>program := sc2\<rparr>) = (topt, lx')"
    by (simp add: scanSlash_def m m2 token1_def split_beta)
  then have "op_res lx () topt lx' ()"
    unfolding op_res_def using lx_ext_program [OF ext] by blast
  then show ?thesis by (rule op_res_post)
qed


lemma createToken_eq:
  "createToken k content lx =
     (\<lparr>kind = k, lexeme = content, comments = lastComments lx,
       offset = int (position lx) - int (length content)\<rparr>, lx\<lparr>lastComments := []\<rparr>)"
  by (simp add: createToken_def clearComments_def)

lemma scanString_post:
  assumes "scanString onError lx u = Inr (t, lx', u')"
  shows "branch_post lx (Some t) lx'"
proof -
  obtain b sc where loop: "scanString_loop (program lx) = (b, sc)" by fastforce
  have ext: "sc_ext (program lx) sc"
    using scanString_loop_ext [of "program lx"] by (simp add: loop)
  define a where "a = position lx"
  define c where "c = mPosition sc"
  define s where "s = contents (source (program lx))"
  have src: "contents (source sc) = s" using ext by (simp add: sc_ext_def s_def)
  show ?thesis
  proof (cases b)
    case True
    define lexeme0 where "lexeme0 = substring s (int (a + 1)) (int c)"
    define lexeme1 where "lexeme1 = substring lexeme0 0 (int (length lexeme0) - 1)"
    from assms have t: "t = \<lparr>kind = STRING, lexeme = lexeme1, comments = lastComments lx,
        offset = int c - int (length lexeme1)\<rparr>"
      and lx': "lx' = lx\<lparr>program := sc, position := c, lastComments := []\<rparr>"
      by (simp_all add: scanString_def loop True Let_def lexer_substring_def createToken_eq
          scanner_substring_def src a_def c_def lexeme0_def lexeme1_def)
    show ?thesis
      unfolding branch_post_def
    proof (intro conjI impI)
      show "sc_ext (program lx) (program lx')" using ext by (simp add: lx')
    next
      assume pre: "position lx < mPosition (program lx) \<and>
        mPosition (program lx) \<le> scanner_length (program lx)"
      then have ac: "a + 1 \<le> c" "c \<le> length s"
        using ext by (auto simp: sc_ext_def a_def c_def s_def scanner_length_def)
      have l0: "length lexeme0 = c - (a + 1)"
        unfolding lexeme0_def using ac by (rule length_substring_nat)
      have "length lexeme1 \<le> nat (max 0 (int (length lexeme0) - 1)) - nat (min 0 (int (length lexeme0) - 1))"
        unfolding lexeme1_def by (rule length_substring_le)
      then have l1: "length lexeme1 \<le> c - (a + 1)" using l0 by (simp add: min_def max_def split: if_splits)
      show "position lx \<le> position lx'" using ac by (simp add: lx' a_def)
      show "position lx' \<le> mPosition (program lx')" by (simp add: lx' c_def)
      show "case Some t of
           Some t \<Rightarrow>
             int (position lx) \<le> offset t \<and> offset t \<le> int (position lx') \<and>
             (kind t \<noteq> STRING \<longrightarrow>
                substring (contents (source (program lx))) (offset t)
                  (offset t + int (length (lexeme t))) = lexeme t) \<and>
             comments t = lastComments lx \<and> lastComments lx' = [] \<and>
             commentLog lx' = commentLog lx
         | None \<Rightarrow>
             (lastComments lx' = lastComments lx \<and> commentLog lx' = commentLog lx) \<or>
             (\<exists>c. lastComments lx' = lastComments lx @ [c] \<and>
                  commentLog lx' = commentLog lx @ [c] \<and>
                  comment_offset c = int (mPosition (program lx')))"
        using ac l1 by (simp add: t lx' a_def [symmetric])
    qed
  next
    case False
    define lx1 where "lx1 = lx\<lparr>program := sc\<rparr>"
    define content where "content = substring s (int (a + 1)) (int c)"
    from assms obtain r where rep: "reportError onError (str ''Unterminated string'') lx1 u = Inr r"
      by (auto simp: scanString_def loop False Let_def lx1_def split: sum.splits)
    from assms rep have t: "t = \<lparr>kind = STRING, lexeme = content, comments = lastComments lx,
        offset = int c - int (length content)\<rparr>"
      and lx': "lx' = lx\<lparr>program := sc, position := c, lastComments := []\<rparr>"
      by (simp_all add: scanString_def loop False Let_def createToken0_eq lx1_def [symmetric])
         (simp_all add: lx1_def scanner_substring_def src a_def c_def content_def)
    show ?thesis
      unfolding branch_post_def
    proof (intro conjI impI)
      show "sc_ext (program lx) (program lx')" using ext by (simp add: lx')
    next
      assume pre: "position lx < mPosition (program lx) \<and>
        mPosition (program lx) \<le> scanner_length (program lx)"
      then have ac: "a + 1 \<le> c" "c \<le> length s"
        using ext by (auto simp: sc_ext_def a_def c_def s_def scanner_length_def)
      have l0: "length content = c - (a + 1)"
        unfolding content_def using ac by (rule length_substring_nat)
      show "position lx \<le> position lx'" using ac by (simp add: lx' a_def)
      show "position lx' \<le> mPosition (program lx')" by (simp add: lx' c_def)
      show "case Some t of
           Some t \<Rightarrow>
             int (position lx) \<le> offset t \<and> offset t \<le> int (position lx') \<and>
             (kind t \<noteq> STRING \<longrightarrow>
                substring (contents (source (program lx))) (offset t)
                  (offset t + int (length (lexeme t))) = lexeme t) \<and>
             comments t = lastComments lx \<and> lastComments lx' = [] \<and>
             commentLog lx' = commentLog lx
         | None \<Rightarrow>
             (lastComments lx' = lastComments lx \<and> commentLog lx' = commentLog lx) \<or>
             (\<exists>c. lastComments lx' = lastComments lx @ [c] \<and>
                  commentLog lx' = commentLog lx @ [c] \<and>
                  comment_offset c = int (mPosition (program lx')))"
        using ac l0 by (simp add: t lx' a_def [symmetric])
    qed
  qed
qed

lemma scanToken_branch_post:
  assumes "scanToken onError lx0 u = Inr (topt, lx', u')"
  shows "branch_post (lx0\<lparr>program := snd (advance (program lx0))\<rparr>) topt lx'"
  using assms
proof (cases rule: scanToken_cases)
  case op
  then show ?thesis by (rule op_res_post)
next
  case slash
  then show ?thesis by (simp add: scanSlash_post)
next
  case (string t)
  then show ?thesis by (simp add: scanString_post)
next
  case ws
  then show ?thesis by (simp add: branch_post_def)
next
  case (number t c)
  then show ?thesis by (auto intro: op_res_post scanNumber_op)
next
  case (ident t)
  then show ?thesis by (auto intro: op_res_post scanIdentifierOrKeyword_op)
next
  case (unknown msg)
  then show ?thesis by (simp add: branch_post_def)
qed

lemma scanToken_progress:
  assumes "scanToken onError lx u = Inr (topt, lx', u')" and "hasNext (program lx)"
  shows "source (program lx') = source (program lx) \<and>
         mPosition (program lx) < mPosition (program lx')"
  using scanToken_branch_post [OF assms(1)] assms(2)
  by (auto simp: branch_post_def sc_ext_def advance_def)

section \<open>The main loop\<close>

function scanProgram_loop ::
  "'u ErrorReporter \<Rightarrow> ClutchLexer \<Rightarrow> 'u \<Rightarrow> Token list \<Rightarrow>
   failure + (Token list \<times> ClutchLexer \<times> 'u)" where
  "scanProgram_loop onError lx u tokens =
     (if hasNext (program lx) then
        (case scanToken onError lx u of
           Inl e \<Rightarrow> Inl e
         | Inr (token, lx', u') \<Rightarrow>
             scanProgram_loop onError lx' u'
               (case token of Some t \<Rightarrow> tokens @ [t] | None \<Rightarrow> tokens))
      else Inr (tokens, lx, u))"
  by pat_completeness auto
termination
proof (relation "measure (\<lambda>(onError, lx, u, tokens).
         scanner_length (program lx) - mPosition (program lx))", goal_cases)
  case 1
  show ?case by simp
next
  case (2 onError lx u tokens r token rest lx' u')
  then have "scanToken onError lx u = Inr (token, lx', u')" by simp
  from scanToken_progress [OF this \<open>hasNext (program lx)\<close>] \<open>hasNext (program lx)\<close>
  show ?case by (auto simp: hasNext_def scanner_length_def)
qed

declare scanProgram_loop.simps [simp del]

text \<open>
  \<open>scanProgram\<close> sets the anchor and the scanner, runs the loop and appends the
  \<open>EOF\<close> token, created like every other token. The lexer is returned with the tokens
  so that its final state can be spoken about.
\<close>

definition scanProgram ::
  "ClutchLexer \<Rightarrow> StringScanner \<Rightarrow> 'u ErrorReporter option \<Rightarrow> 'u \<Rightarrow>
   failure + (Token list \<times> ClutchLexer \<times> 'u)" where
  "scanProgram lx0 program0 onError0 u =
     (let onError = (case onError0 of None \<Rightarrow> defaultOnError | Some r \<Rightarrow> r);
          lx = lx0\<lparr>position := 0, program := program0\<rparr>
      in case scanProgram_loop onError lx u [] of
           Inl e \<Rightarrow> Inl e
         | Inr (tokens, lx', u') \<Rightarrow>
             (let (eof, lx'') = createToken EOF [] lx'
              in Inr (tokens @ [eof], lx'', u')))"

definition tokenize ::
  "jsstring \<Rightarrow> 'u ErrorReporter option \<Rightarrow> 'u \<Rightarrow> failure + (Token list \<times> 'u)" where
  "tokenize program0 onError u =
     (case scanProgram newClutchLexer (newStringScanner program0) onError u of
        Inl e \<Rightarrow> Inl e
      | Inr (tokens, lx, u') \<Rightarrow> Inr (tokens, u'))"


section \<open>The source file: line starts, lines, columns and spans\<close>

text \<open>
  A line terminator, in the words of the specification: an \<open>LF\<close>, or a \<open>CR\<close> that
  is not followed by an \<open>LF\<close>; of a \<open>CR+LF\<close> pair only the \<open>LF\<close> counts.
\<close>

definition is_terminator :: "jsstring \<Rightarrow> nat \<Rightarrow> bool" where
  "is_terminator s i \<longleftrightarrow>
     i < length s \<and>
     (s ! i = LF \<or> (s ! i = CR \<and> \<not> (i + 1 < length s \<and> s ! (i + 1) = LF)))"

text \<open>
  The cache is private and written by \<open>computeLineStarts\<close> only, so in every file the
  program can reach it is either unset or the table of the contents.
\<close>

definition cache_ok :: "SourceFile \<Rightarrow> bool" where
  "cache_ok f \<longleftrightarrow>
     mLineStartsCache f = None \<or>
     mLineStartsCache f = Some (computeLineStarts_loop (contents f) 0 [])"

lemma computeLineStarts_loop_filter:
  "i \<le> length s \<Longrightarrow>
   computeLineStarts_loop s i acc =
     acc @ map (\<lambda>k. int k + 1) (filter (is_terminator s) [i..<length s])"
proof (induction s i acc rule: computeLineStarts_loop.induct)
  case (1 s i acc)
  show ?case
  proof (cases "i < length s")
    case False
    with "1.prems" show ?thesis
      by (subst computeLineStarts_loop.simps) simp
  next
    case True
    then have upt: "[i..<length s] = i # [Suc i..<length s]"
      by (simp add: upt_conv_Cons)
    have tm: "is_terminator s i \<longleftrightarrow>
        (if charCodeAt s i = Some CR then
           (let j = i + 1 in
            if j \<ge> length s \<or> charCodeAt s j \<noteq> Some LF
            then Some LF else charCodeAt s i)
         else charCodeAt s i) = Some LF"
      using True by (auto simp: is_terminator_def charCodeAt_def Let_def)
    from True have le: "i + 1 \<le> length s" by simp
    show ?thesis
      using "1.IH" [OF _ refl refl le] True tm
      apply (subst computeLineStarts_loop.simps)
      apply (simp add: upt Let_def del: upt.simps)
      done
  qed
qed

lemma lineStarts_table:
  "cache_ok f \<Longrightarrow>
   lineStarts f = (map (\<lambda>k. int k + 1) (filter (is_terminator (contents f)) [0..<length (contents f)]),
                   f\<lparr>mLineStartsCache := Some (computeLineStarts_loop (contents f) 0 [])\<rparr>)"
  by (auto simp: cache_ok_def lineStarts_def computeLineStarts_def computeLineStarts_loop_filter Let_def
      split: option.splits)

lemma binarySearch_loop_le: "mn \<le> mx \<Longrightarrow> binarySearch_loop ls off mn mx \<le> mx \<and> mn \<le> binarySearch_loop ls off mn mx"
proof (induction ls off mn mx rule: binarySearch_loop.induct)
  case (1 ls off mn mx)
  show ?case
  proof (cases "mn < mx")
    case False
    with "1.prems" show ?thesis by (subst (1 2) binarySearch_loop.simps) simp
  next
    case True
    define half where "half = mn + (mx - mn) div 2"
    have h: "mn \<le> half" "half < mx" using True by (auto simp: half_def)
    show ?thesis
    proof (cases "js_opt_greater (js_index ls half) off")
      case g: True
      from "1.IH"(1) [OF True half_def g] h
      have "binarySearch_loop ls off mn half \<le> half \<and> mn \<le> binarySearch_loop ls off mn half" by simp
      moreover have "binarySearch_loop ls off mn mx = binarySearch_loop ls off mn half"
        using True g by (subst binarySearch_loop.simps) (simp add: half_def Let_def)
      ultimately show ?thesis using h by simp
    next
      case g: False
      from "1.IH"(2) [OF True half_def g] h
      have "binarySearch_loop ls off (half + 1) mx \<le> mx \<and> half + 1 \<le> binarySearch_loop ls off (half + 1) mx" by simp
      moreover have "binarySearch_loop ls off mn mx = binarySearch_loop ls off (half + 1) mx"
        using True g by (subst binarySearch_loop.simps) (simp add: half_def Let_def)
      ultimately show ?thesis using h by simp
    qed
  qed
qed


lemma table_sorted:
  "sorted (map (\<lambda>k. int k + 1) (filter P [0..<n]))"
proof -
  have "sorted (map (\<lambda>k. int k + 1) [0..<n])"
    by (simp add: sorted_map sorted_wrt_iff_nth_less del: upt.simps)
  then show ?thesis by (rule sorted_filter)
qed

lemma table_pos: "v \<in> set (map (\<lambda>k. int k + 1) (filter P [0..<n])) \<Longrightarrow> v \<ge> 1"
  by auto

lemma sorted_count_take:
  assumes "sorted (ls :: int list)" "r < length ls" "\<forall>k<r. ls ! k \<le> off" "off < ls ! r"
  shows "filter (\<lambda>v. v \<le> off) ls = take r ls"
proof -
  have a: "filter (\<lambda>v. v \<le> off) (take r ls) = take r ls"
    using assms(2,3) by (auto simp: filter_id_conv in_set_conv_nth)
  have "\<forall>v\<in>set (drop r ls). ls ! r \<le> v"
    using assms(1,2) by (auto simp: in_set_conv_nth sorted_iff_nth_mono)
  then have b: "filter (\<lambda>v. v \<le> off) (drop r ls) = []"
    using assms(4) by (auto simp: filter_empty_conv)
  have "filter (\<lambda>v. v \<le> off) ls = filter (\<lambda>v. v \<le> off) (take r ls @ drop r ls)" by simp
  also have "\<dots> = take r ls" unfolding filter_append a b by simp
  finally show ?thesis .
qed

lemma binarySearch_loop_inv:
  "sorted ls \<Longrightarrow> 0 \<le> mn \<Longrightarrow> mn \<le> mx \<Longrightarrow> mx < int (length ls) \<Longrightarrow>
   \<forall>k. 0 \<le> k \<and> k < mn \<longrightarrow> ls ! nat k \<le> off \<Longrightarrow> off < ls ! nat mx \<Longrightarrow>
   (let r = binarySearch_loop ls off mn mx in
      mn \<le> r \<and> r \<le> mx \<and> off < ls ! nat r \<and> (\<forall>k. 0 \<le> k \<and> k < r \<longrightarrow> ls ! nat k \<le> off))"
proof (induction ls off mn mx rule: binarySearch_loop.induct)
  case (1 ls off mn mx)
  show ?case
  proof (cases "mn < mx")
    case False
    with "1.prems" have "mn = mx" by simp
    with "1.prems" show ?thesis by (subst binarySearch_loop.simps) (simp add: Let_def)
  next
    case True
    define half where "half = mn + (mx - mn) div 2"
    have h: "mn \<le> half" "half < mx" using True by (auto simp: half_def)
    have idx: "js_index ls half = Some (ls ! nat half)"
      using h "1.prems" by (simp add: js_index_def)
    show ?thesis
    proof (cases "js_opt_greater (js_index ls half) off")
      case g: True
      then have gt: "off < ls ! nat half" by (simp add: idx js_opt_greater_def)
      have eq: "binarySearch_loop ls off mn mx = binarySearch_loop ls off mn half"
        using True g by (subst binarySearch_loop.simps) (simp add: half_def Let_def)
      have "let r = binarySearch_loop ls off mn half in
             mn \<le> r \<and> r \<le> half \<and> off < ls ! nat r \<and> (\<forall>k. 0 \<le> k \<and> k < r \<longrightarrow> ls ! nat k \<le> off)"
        using "1.IH"(1) [OF True half_def g] h "1.prems" gt by simp
      then show ?thesis using h unfolding eq Let_def by auto
    next
      case g: False
      then have le: "ls ! nat half \<le> off" by (simp add: idx js_opt_greater_def)
      have eq: "binarySearch_loop ls off mn mx = binarySearch_loop ls off (half + 1) mx"
        using True g by (subst binarySearch_loop.simps) (simp add: half_def Let_def)
      have below: "\<forall>k. 0 \<le> k \<and> k < half + 1 \<longrightarrow> ls ! nat k \<le> off"
      proof (intro allI impI)
        fix k assume k: "0 \<le> k \<and> k < half + 1"
        show "ls ! nat k \<le> off"
        proof (cases "k < mn")
          case True with k "1.prems"(5) show ?thesis by simp
        next
          case False
          then have "nat k \<le> nat half" "nat half < length ls"
            using k h "1.prems" by auto
          with "1.prems"(1) have "ls ! nat k \<le> ls ! nat half"
            by (simp add: sorted_iff_nth_mono)
          with le show ?thesis by simp
        qed
      qed
      have "let r = binarySearch_loop ls off (half + 1) mx in
             half + 1 \<le> r \<and> r \<le> mx \<and> off < ls ! nat r \<and> (\<forall>k. 0 \<le> k \<and> k < r \<longrightarrow> ls ! nat k \<le> off)"
        using "1.IH"(2) [OF True half_def g] h "1.prems" below by simp
      then show ?thesis using h unfolding eq Let_def by auto
    qed
  qed
qed


lemma computeLine_count:
  assumes ok: "cache_ok f" and ne: "fst (lineStarts f) \<noteq> []"
    and o: "0 \<le> off" "off \<le> file_length f"
  shows "fst (computeLine f off) = Inr (int (length (filter (\<lambda>v. v \<le> off) (fst (lineStarts f)))))"
proof -
  define ls where "ls = fst (lineStarts f)"
  have srt: "sorted ls" unfolding ls_def using ok by (simp add: lineStarts_table table_sorted)
  have len: "0 < length ls" using ne by (simp add: ls_def)
  have i0: "js_index ls 0 = Some (ls ! 0)" using len by (simp add: js_index_def)
  have nl: "nat (int (length ls) - 1) = length ls - 1" by simp
  have il: "js_index ls (int (length ls) - 1) = Some (ls ! (length ls - 1))"
    using len by (simp add: js_index_def nl del: One_nat_def)
  have cl: "fst (computeLine f off) =
      Inr (if off < ls ! 0 then 0
           else if off \<ge> ls ! (length ls - 1) then int (length ls)
           else binarySearch ls off)"
    using o by (simp add: computeLine_def assertValidOffset_def ls_def [symmetric] split_beta
        Let_def i0 il js_less_def js_greater_eq_def)
  show ?thesis
  proof (cases "off < ls ! 0")
    case True
    have "\<forall>v\<in>set ls. ls ! 0 \<le> v"
      using srt len by (auto simp: in_set_conv_nth sorted_iff_nth_mono)
    with True have "filter (\<lambda>v. v \<le> off) ls = []" by (auto simp: filter_empty_conv)
    with True show ?thesis by (simp add: cl ls_def [symmetric])
  next
    case nlt: False
    show ?thesis
    proof (cases "off \<ge> ls ! (length ls - 1)")
      case True
      have "\<forall>v\<in>set ls. v \<le> ls ! (length ls - 1)"
        using srt len by (auto simp: in_set_conv_nth sorted_iff_nth_mono)
      with True have "filter (\<lambda>v. v \<le> off) ls = ls" by (auto simp: filter_id_conv)
      with True nlt show ?thesis by (simp add: cl ls_def [symmetric])
    next
      case False
      define r where "r = binarySearch ls off"
      have pre: "off < ls ! nat (int (length ls) - 1)" using False len by (simp add: nl del: One_nat_def)
      have "let r = binarySearch_loop ls off 0 (int (length ls) - 1) in
             0 \<le> r \<and> r \<le> int (length ls) - 1 \<and> off < ls ! nat r \<and>
             (\<forall>k. 0 \<le> k \<and> k < r \<longrightarrow> ls ! nat k \<le> off)"
        using len pre by (intro binarySearch_loop_inv [OF srt]) auto
      then have r: "0 \<le> r" "r \<le> int (length ls) - 1" "off < ls ! nat r"
        "\<forall>k. 0 \<le> k \<and> k < r \<longrightarrow> ls ! nat k \<le> off"
        by (simp_all add: r_def binarySearch_def Let_def)
      have "\<forall>k<nat r. ls ! k \<le> off"
      proof (intro allI impI)
        fix k assume "k < nat r"
        then have "0 \<le> int k \<and> int k < r" by simp
        with r(4) have "ls ! nat (int k) \<le> off" by blast
        then show "ls ! k \<le> off" by simp
      qed
      then have "filter (\<lambda>v. v \<le> off) ls = take (nat r) ls"
        using r len by (intro sorted_count_take [OF srt]) auto
      then have "int (length (filter (\<lambda>v. v \<le> off) ls)) = r"
        using r len by simp
      with False nlt show ?thesis by (simp add: cl ls_def [symmetric] r_def)
    qed
  qed
qed


lemma substring_slice:
  "0 \<le> a \<Longrightarrow> a \<le> b \<Longrightarrow> b \<le> int (length s) \<Longrightarrow>
   substring s a b = take (nat (b - a)) (drop (nat a) s)"
  by (simp add: substring_def clamp_index_def Let_def min_def max_def nat_diff_distrib)

text \<open>
  Claim C7. For every file and integers \<open>start\<close>, \<open>end\<close>: \<open>span\<close> raises a range
  error exactly when \<open>start < 0\<close>, \<open>end < 0\<close>, \<open>start > length\<close>, \<open>end > length\<close>
  or \<open>end < start\<close>; otherwise the span has offset \<open>start\<close> and the slice of the
  contents from \<open>start\<close> to \<open>end\<close> as its text; the file is unchanged in both cases.
\<close>

theorem span_range_error_iff:
  "((\<exists>e. fst (span f start end) = Inl e) \<longleftrightarrow>
      (start < 0 \<or> end < 0 \<or> start > file_length f \<or> end > file_length f \<or> end < start)) \<and>
   (\<not> (start < 0 \<or> end < 0 \<or> start > file_length f \<or> end > file_length f \<or> end < start) \<longrightarrow>
      fst (span f start end) =
        Inr \<lparr>span_file = f, span_offset = start,
             span_text = take (nat (end - start)) (drop (nat start) (contents f))\<rparr>) \<and>
   snd (span f start end) = f"
  by (auto simp: span_def assertValidOffset_def file_length_def substring_slice)

text \<open>
  The witness of C7: a slice of \<open>abcd\<close>, and a call with \<open>end < start\<close>.
\<close>

theorem span_range_error_iff_witness:
  "fst (span (newSourceFile (str ''abcd'') None) 1 3) =
     Inr \<lparr>span_file = newSourceFile (str ''abcd'') None, span_offset = 1, span_text = str ''bc''\<rparr> \<and>
   (\<exists>e. fst (span (newSourceFile (str ''abcd'') None) 3 1) = Inl e) \<and>
   snd (span (newSourceFile (str ''abcd'') None) 3 1) = newSourceFile (str ''abcd'') None"
  using span_range_error_iff [of "newSourceFile (str ''abcd'') None" 1 3]
    span_range_error_iff [of "newSourceFile (str ''abcd'') None" 3 1]
  by (simp add: newSourceFile_def file_length_def str_def)

text \<open>
  Claim C4. The line-start table of a file holds, in order, \<open>i + 1\<close> for every index
  \<open>i\<close> at which a line terminator stands (an \<open>LF\<close>, or a \<open>CR\<close> not followed by
  \<open>LF\<close>; a \<open>CR+LF\<close> pair counts once, at the \<open>LF\<close>), so its size is the number of
  line terminators, and a trailing terminator yields a final entry equal to the length.
\<close>

theorem lineStarts_one_entry_per_terminator:
  "fst (lineStarts (newSourceFile s u)) =
     map (\<lambda>i. int i + 1) (filter (is_terminator s) [0..<length s]) \<and>
   length (fst (lineStarts (newSourceFile s u))) = card {i. is_terminator s i} \<and>
   (s \<noteq> [] \<and> is_terminator s (length s - 1) \<longrightarrow>
      last (fst (lineStarts (newSourceFile s u))) = int (length s))"
proof -
  have ok: "cache_ok (newSourceFile s u)" by (simp add: cache_ok_def newSourceFile_def)
  have tab: "fst (lineStarts (newSourceFile s u)) =
     map (\<lambda>i. int i + 1) (filter (is_terminator s) [0..<length s])"
    using lineStarts_table [OF ok] by (simp add: newSourceFile_def)
  have "{i. is_terminator s i} = {i. i < length [0..<length s] \<and> is_terminator s ([0..<length s] ! i)}"
    by (auto simp: is_terminator_def)
  then have cnt: "length (filter (is_terminator s) [0..<length s]) = card {i. is_terminator s i}"
    by (simp only: length_filter_conv_card)
  have lst: "last (map (\<lambda>i. int i + 1) (filter (is_terminator s) [0..<length s])) = int (length s)"
    if "s \<noteq> []" "is_terminator s (length s - 1)"
  proof -
    from that(1) have "[0..<length s] = [0..<length s - 1] @ [length s - 1]"
      by (cases s rule: rev_cases) simp_all
    then have "filter (is_terminator s) [0..<length s] =
        filter (is_terminator s) ([0..<length s - 1] @ [length s - 1])"
      by (rule arg_cong)
    then have "filter (is_terminator s) [0..<length s] =
        filter (is_terminator s) [0..<length s - 1] @ [length s - 1]"
      using that(2) by (simp del: upt.simps)
    then show ?thesis using that(1) by (simp add: of_nat_diff Suc_leI)
  qed
  show ?thesis using tab cnt lst by simp
qed

text \<open>
  The witness of C4: \<open>a CR LF b CR c LF\<close> has three terminators and the table
  \<open>[3, 5, 7]\<close>.
\<close>

theorem lineStarts_one_entry_per_terminator_witness:
  "fst (lineStarts (newSourceFile [97, CR, LF, 98, CR, 99, LF] None)) = [3, 5, 7] \<and>
   card {i. is_terminator [97, CR, LF, 98, CR, 99, LF] i} = 3 \<and>
   last (fst (lineStarts (newSourceFile [97, CR, LF, 98, CR, 99, LF] None))) = 7"
proof -
  have f: "filter (is_terminator [97, CR, LF, 98, CR, 99, LF]) [0..<7] = [2, 4, 6]"
    by (simp add: is_terminator_def upt_rec)
  have t: "is_terminator [97, CR, LF, 98, CR, 99, LF] 6"
    by (simp add: is_terminator_def)
  have len: "length [97, CR, LF, 98, CR, 99, LF :: code_unit] = 7" by simp
  note th = lineStarts_one_entry_per_terminator [of "[97, CR, LF, 98, CR, 99, LF]" None]
  from th [unfolded len f] have a: "fst (lineStarts (newSourceFile [97, CR, LF, 98, CR, 99, LF] None)) = [3, 5, 7]"
    by simp
  from th have b: "length (fst (lineStarts (newSourceFile [97, CR, LF, 98, CR, 99, LF] None))) =
      card {i. is_terminator [97, CR, LF, 98, CR, 99, LF] i}"
    by (rule conjunct1 [OF conjunct2])
  from th [unfolded len f] t
  have c: "last (fst (lineStarts (newSourceFile [97, CR, LF, 98, CR, 99, LF] None))) = 7"
    by simp
  from b have "card {i. is_terminator [97, CR, LF, 98, CR, 99, LF] i} = 3"
    unfolding a by simp
  with a c show ?thesis by simp
qed

text \<open>
  Claim C8. For every file and offset \<open>o\<close> in \<open>[0, length]\<close>: \<open>computeColumn(o)\<close>
  is \<open>o\<close> minus the line-start entry at index \<open>computeLine(o) - 1\<close> when
  \<open>computeLine(o) \<ge> 1\<close> (the index is then inside the table), and \<open>o\<close> otherwise.
\<close>

theorem computeColumn_from_line:
  assumes "cache_ok f" and "0 \<le> off" and "off \<le> file_length f"
  shows "\<exists>l. fst (computeLine f off) = Inr l \<and>
             (1 \<le> l \<longrightarrow> nat (l - 1) < length (fst (lineStarts f))) \<and>
             fst (computeColumn f off) =
               Inr (if 1 \<le> l then off - fst (lineStarts f) ! nat (l - 1) else off)"
proof -
  define ls where "ls = fst (lineStarts f)"
  define f' where "f' = snd (lineStarts f)"
  have ls': "lineStarts f = (ls, f')" by (simp add: ls_def f'_def)
  define tab where "tab = computeLineStarts_loop (contents f) 0 []"
  have f': "f' = f\<lparr>mLineStartsCache := Some tab\<rparr>"
    using assms(1) by (simp add: f'_def lineStarts_table tab_def)
  have "ls = tab"
    using assms(1) by (simp add: ls_def lineStarts_table tab_def computeLineStarts_loop_filter)
  then have ls'': "lineStarts f' = (ls, f')"
    by (simp add: f' lineStarts_def computeLineStarts_def)
  have valid: "assertValidOffset f off = None"
    using assms(2,3) by (simp add: assertValidOffset_def)
  define l where "l = (if js_less off (js_index ls 0) then 0
           else if js_greater_eq off (js_index ls (int (length ls) - 1)) then int (length ls)
           else binarySearch ls off)"
  have cl: "computeLine f off = (Inr l, f')"
    by (simp add: computeLine_def valid ls' l_def)
  have bs: "binarySearch ls off \<le> int (length ls)"
  proof (cases ls)
    case Nil
    then show ?thesis by (simp add: binarySearch_def binarySearch_loop.simps)
  next
    case (Cons v vs)
    then show ?thesis
      using binarySearch_loop_le [of 0 "int (length ls) - 1" ls off]
      by (simp add: binarySearch_def)
  qed
  have le: "l \<le> int (length ls)"
    using bs by (auto simp: l_def)
  have pos: "\<forall>v\<in>set ls. 1 \<le> v"
    using assms(1) by (auto simp: ls_def lineStarts_table)
  have idx: "js_index ls (l - 1) = Some (ls ! nat (l - 1))" "ls ! nat (l - 1) \<noteq> 0" if "1 \<le> l"
  proof -
    from that le have n: "nat (l - 1) < length ls" by simp
    then show "js_index ls (l - 1) = Some (ls ! nat (l - 1))"
      using that by (simp add: js_index_def)
    from n have "ls ! nat (l - 1) \<in> set ls" by (rule nth_mem)
    with pos have "1 \<le> ls ! nat (l - 1)" by blast
    then show "ls ! nat (l - 1) \<noteq> 0" by simp
  qed
  have nidx: "js_index ls (l - 1) = None" if "\<not> 1 \<le> l"
    using that by (simp add: js_index_def)
  have cc: "fst (computeColumn f off) =
      Inr (if 1 \<le> l then off - ls ! nat (l - 1) else off)"
    using idx nidx by (simp add: computeColumn_def valid cl ls'' Let_def)
  show ?thesis
    using cl cc le by (intro exI [of _ l]) (auto simp: ls_def)
qed

text \<open>
  The witness of C8: offset 4 of \<open>ab LF cd\<close> is on line 1, column 1.
\<close>

theorem computeColumn_from_line_witness:
  "cache_ok (newSourceFile (str ''ab\<newline>cd'') None) \<and>
   fst (computeLine (newSourceFile (str ''ab\<newline>cd'') None) 4) = Inr 1 \<and>
   fst (computeColumn (newSourceFile (str ''ab\<newline>cd'') None) 4) = Inr 1"
proof -
  let ?f = "newSourceFile (str ''ab\<newline>cd'') None"
  have ok: "cache_ok ?f" by (simp add: cache_ok_def newSourceFile_def)
  have len: "(0::int) \<le> 4" "4 \<le> file_length ?f"
    by (simp_all add: file_length_def newSourceFile_def str_def)
  have ls: "fst (lineStarts ?f) = [3]"
    by (simp add: lineStarts_def computeLineStarts_def newSourceFile_def str_def
        computeLineStarts_loop.simps charCodeAt_def)
  have cl: "fst (computeLine ?f 4) = Inr 1"
    using ls len by (simp add: computeLine_def assertValidOffset_def split_beta Let_def
        js_less_def js_greater_eq_def js_index_def)
  from computeColumn_from_line [OF ok len] cl ls
  show ?thesis using ok by simp
qed

text \<open>On an empty table the result is \<open>-1\<close> at every valid offset.\<close>

lemma computeLine_empty_table:
  assumes "cache_ok f" and "fst (lineStarts f) = []" and "0 \<le> off" and "off \<le> file_length f"
  shows "fst (computeLine f off) = Inr (- 1)"
  using assms
  by (simp add: computeLine_def assertValidOffset_def split_beta Let_def js_index_def js_less_def
      js_greater_eq_def binarySearch_def binarySearch_loop.simps)

text \<open>
  Claim C3 says that \<open>computeLine(o)\<close> is the number of line-start entries
  \<open>\<le> o\<close>. On a file without line terminator the table is empty, both guards compare
  with \<open>undefined\<close> and fail, and the binary search starts with \<open>max = -1\<close> and
  returns it: the line of offset 1 in \<open>abc\<close> is \<open>-1\<close>, not \<open>0\<close>. (On a
  non-empty table the claim holds: \<open>computeLine_count\<close>; on an empty one the result is
  always \<open>-1\<close>: \<open>computeLine_empty_table\<close>.)
\<close>

theorem computeLine_without_line_terminator:
  "fst (computeLine (newSourceFile (str ''abc'') None) 1) = Inr (- 1)"
  by (simp add: computeLine_def newSourceFile_def str_def assertValidOffset_def file_length_def
     lineStarts_def computeLineStarts_def computeLineStarts_loop.simps charCodeAt_def js_index_def js_less_def
     js_greater_eq_def binarySearch_def binarySearch_loop.simps Let_def)


section \<open>The lexer: invariants of the token sequence\<close>

text \<open>
  The invariant of the main loop, for the input \<open>p\<close>: the anchor is not after the
  cursor and the cursor not after the end; the tokens so far have non-decreasing offsets,
  none after the anchor, and the lexeme of each (strings apart) is the slice at its
  offset; the comments of the tokens followed by the buffer are the log of all buffered
  comments, which are distinct because each was logged with the cursor of its time.
\<close>

definition loop_inv :: "jsstring \<Rightarrow> ClutchLexer \<Rightarrow> Token list \<Rightarrow> bool" where
  "loop_inv p lx tokens \<longleftrightarrow>
     contents (source (program lx)) = p \<and>
     position lx \<le> mPosition (program lx) \<and> mPosition (program lx) \<le> length p \<and>
     sorted (map offset tokens) \<and>
     (\<forall>t\<in>set tokens.
        offset t \<le> int (position lx) \<and>
        (kind t \<noteq> STRING \<longrightarrow>
           substring p (offset t) (offset t + int (length (lexeme t))) = lexeme t)) \<and>
     concat (map comments tokens) @ lastComments lx = commentLog lx \<and>
     (\<forall>c\<in>set (commentLog lx). comment_offset c \<le> int (mPosition (program lx))) \<and>
     distinct (commentLog lx)"

lemma scanToken_loop_inv:
  assumes inv: "loop_inv p lx tokens" and nxt: "hasNext (program lx)"
    and st: "scanToken onError lx u = Inr (topt, lx', u')"
  shows "loop_inv p lx' (case topt of Some t \<Rightarrow> tokens @ [t] | None \<Rightarrow> tokens)"
proof -
  define la where "la = lx\<lparr>program := snd (advance (program lx))\<rparr>"
  have bp: "branch_post la topt lx'" unfolding la_def by (rule scanToken_branch_post [OF st])
  have la: "position la = position lx" "lastComments la = lastComments lx"
    "commentLog la = commentLog lx" "source (program la) = source (program lx)"
    "mPosition (program la) = mPosition (program lx) + 1"
    by (simp_all add: la_def advance_def)
  have pre: "position la < mPosition (program la) \<and> mPosition (program la) \<le> scanner_length (program la)"
    using inv nxt by (auto simp: la loop_inv_def hasNext_def scanner_length_def)
  from bp pre have ext: "sc_ext (program la) (program lx')"
    and pos: "position la \<le> position lx'" "position lx' \<le> mPosition (program lx')"
    by (simp_all add: branch_post_def)
  from ext have src: "source (program lx') = source (program lx)"
    and cur: "mPosition (program lx) < mPosition (program lx')"
    and bnd: "mPosition (program lx') \<le> length p"
    using pre inv by (auto simp: sc_ext_def la loop_inv_def scanner_length_def)
  show ?thesis
  proof (cases topt)
    case None
    with bp pre have c: "(lastComments lx' = lastComments lx \<and> commentLog lx' = commentLog lx) \<or>
        (\<exists>c. lastComments lx' = lastComments lx @ [c] \<and> commentLog lx' = commentLog lx @ [c] \<and>
             comment_offset c = int (mPosition (program lx')))"
      by (simp add: branch_post_def la)
    then show ?thesis
      using inv src cur bnd pos None
      by (auto simp: loop_inv_def la) force+
  next
    case (Some t)
    with bp pre have t: "int (position lx) \<le> offset t" "offset t \<le> int (position lx')"
      "kind t \<noteq> STRING \<longrightarrow> substring p (offset t) (offset t + int (length (lexeme t))) = lexeme t"
      "comments t = lastComments lx" "lastComments lx' = []" "commentLog lx' = commentLog lx"
      using inv by (simp_all add: branch_post_def la loop_inv_def)
    have srt: "sorted (map offset (tokens @ [t]))"
      using inv t(1) by (auto simp: loop_inv_def sorted_append)
    show ?thesis
      using inv src cur bnd pos t srt Some
      by (auto simp: loop_inv_def la)
  qed
qed


lemma scanProgram_loop_inv:
  "scanProgram_loop onError lx u tokens = Inr (ts, lx', u') \<Longrightarrow> loop_inv p lx tokens \<Longrightarrow>
   loop_inv p lx' ts \<and> \<not> hasNext (program lx')"
proof (induction onError lx u tokens rule: scanProgram_loop.induct)
  case (1 onError lx u tokens)
  show ?case
  proof (cases "hasNext (program lx)")
    case False
    with "1.prems" show ?thesis by (simp add: scanProgram_loop.simps [of onError lx u tokens])
  next
    case True
    from "1.prems"(1) True obtain topt lx1 u1 where
      st: "scanToken onError lx u = Inr (topt, lx1, u1)" and
      rest: "scanProgram_loop onError lx1 u1
               (case topt of Some t \<Rightarrow> tokens @ [t] | None \<Rightarrow> tokens) = Inr (ts, lx', u')"
      by (subst (asm) scanProgram_loop.simps) (auto split: sum.splits)
    have inv1: "loop_inv p lx1 (case topt of Some t \<Rightarrow> tokens @ [t] | None \<Rightarrow> tokens)"
      by (rule scanToken_loop_inv [OF "1.prems"(2) True st])
    show ?thesis
      by (rule "1.IH" [OF True st refl refl rest inv1])
  qed
qed

text \<open>A reporter that always returns lets every step, and so the whole loop, return.\<close>

definition returns_normally :: "'u ErrorReporter \<Rightarrow> bool" where
  "returns_normally onError \<longleftrightarrow> (\<forall>sp message u. \<exists>u'. onError sp message u = Inr u')"

lemma reportError_returns:
  assumes "returns_normally onError" and "position lx < scanner_length (program lx)"
  shows "\<exists>u'. reportError onError message lx u = Inr u'"
proof -
  have "\<exists>sp. fst (span (source (program lx)) (int (position lx)) (int (position lx) + 1)) = Inr sp"
    using assms(2)
    by (simp add: span_def assertValidOffset_def file_length_def scanner_length_def)
  then show ?thesis
    using assms(1) by (auto simp: reportError_def returns_normally_def Let_def)
qed

lemma scanString_returns:
  assumes "returns_normally onError" and "position lx < mPosition (program lx)"
    and "mPosition (program lx) \<le> scanner_length (program lx)"
  shows "\<exists>r. scanString onError lx u = Inr r"
proof -
  obtain b sc where loop: "scanString_loop (program lx) = (b, sc)" by fastforce
  have ext: "sc_ext (program lx) sc"
    using scanString_loop_ext [of "program lx"] by (simp add: loop)
  have "position (lx\<lparr>program := sc\<rparr>) < scanner_length (program (lx\<lparr>program := sc\<rparr>))"
    using assms(2,3) ext by (simp add: sc_ext_def scanner_length_def)
  from reportError_returns [OF assms(1) this]
  obtain u' where "reportError onError (str ''Unterminated string'') (lx\<lparr>program := sc\<rparr>) u = Inr u'"
    by blast
  then show ?thesis
    by (cases b) (simp_all add: scanString_def loop Let_def split_beta)
qed

definition isr :: "'a + 'b \<Rightarrow> bool" where
  "isr x \<longleftrightarrow> (\<exists>r. x = Inr r)"

lemma isr_Inr: "isr (Inr r)"
  by (simp add: isr_def)

lemma isr_emit: "isr (emit u x)"
  by (simp add: isr_def emit_def)

lemma isr_if: "isr x \<Longrightarrow> isr y \<Longrightarrow> isr (if b then x else y)"
  by simp

lemma isr_case_prod: "(\<And>a b. isr (f a b)) \<Longrightarrow> isr (case p of (a, b) \<Rightarrow> f a b)"
  by (cases p) simp

lemma isr_case_bool: "isr x \<Longrightarrow> isr y \<Longrightarrow> isr (case b of True \<Rightarrow> x | False \<Rightarrow> y)"
  by (cases b) simp_all

lemma scanToken_returns:
  assumes "returns_normally onError" and "position lx \<le> mPosition (program lx)"
    and "hasNext (program lx)"
  shows "\<exists>r. scanToken onError lx u = Inr r"
proof -
  obtain c sc where adv: "advance (program lx) = (c, sc)" by fastforce
  define la where "la = lx\<lparr>program := sc\<rparr>"
  have sc: "sc = (program lx)\<lparr>mPosition := mPosition (program lx) + 1\<rparr>"
    using adv by (simp add: advance_def)
  have pre: "position la < mPosition (program la)" "mPosition (program la) \<le> scanner_length (program la)"
    using assms(2,3) by (simp_all add: la_def sc hasNext_def scanner_length_def)
  from scanString_returns [OF assms(1) pre]
  obtain r1 where r1: "scanString onError la u = Inr r1" by blast
  have "position la < scanner_length (program la)" using pre by simp
  from reportError_returns [OF assms(1) this]
  have "\<forall>message. \<exists>u'. reportError onError message la u = Inr u'" by blast
  then obtain g where g: "\<And>message. reportError onError message la u = Inr (g message)"
    by metis
  have "isr (scanToken onError lx u)"
    unfolding scanToken_def adv Let_def prod.case la_def [symmetric] r1 g sum.case
    by (intro isr_if isr_case_prod isr_case_bool isr_emit isr_Inr)
  then show ?thesis by (simp add: isr_def)
qed

lemma scanProgram_loop_returns:
  "returns_normally onError \<Longrightarrow> loop_inv p lx tokens \<Longrightarrow>
   \<exists>r. scanProgram_loop onError lx u tokens = Inr r"
proof (induction onError lx u tokens rule: scanProgram_loop.induct)
  case (1 onError lx u tokens)
  show ?case
  proof (cases "hasNext (program lx)")
    case False
    then show ?thesis by (simp add: scanProgram_loop.simps [of onError lx u tokens])
  next
    case True
    have "position lx \<le> mPosition (program lx)" using "1.prems"(2) by (simp add: loop_inv_def)
    from scanToken_returns [OF "1.prems"(1) this True]
    obtain topt lx1 u1 where st: "scanToken onError lx u = Inr (topt, lx1, u1)"
      by (metis prod_cases3)
    have inv1: "loop_inv p lx1 (case topt of Some t \<Rightarrow> tokens @ [t] | None \<Rightarrow> tokens)"
      by (rule scanToken_loop_inv [OF "1.prems"(2) True st])
    from "1.IH" [OF True st refl refl "1.prems"(1) inv1] True st
    show ?thesis by (subst scanProgram_loop.simps) simp
  qed
qed


text \<open>A reporter that does not raise: it appends what it is given to a list.\<close>

definition recordingReporter :: "(int \<times> jsstring \<times> jsstring) list ErrorReporter" where
  "recordingReporter sp message log = Inr (log @ [(span_offset sp, span_text sp, message)])"

lemma loop_inv_start:
  "loop_inv p (newClutchLexer\<lparr>position := 0, program := newStringScanner p\<rparr>) []"
  by (simp add: loop_inv_def newClutchLexer_def newStringScanner_def newSourceFile_def)

lemma scanProgram_Inr:
  assumes "scanProgram newClutchLexer (newStringScanner p) onError u = Inr (ts, lx, u')"
  obtains ts0 lx0 where
    "loop_inv p lx0 ts0" "\<not> hasNext (program lx0)"
    "ts = ts0 @ [\<lparr>kind = EOF, lexeme = [], comments = lastComments lx0,
                  offset = int (position lx0)\<rparr>]"
    "lx = lx0\<lparr>lastComments := []\<rparr>"
proof -
  define r where "r = (case onError of None \<Rightarrow> defaultOnError | Some r \<Rightarrow> r)"
  define l where "l = newClutchLexer\<lparr>position := 0, program := newStringScanner p\<rparr>"
  from assms obtain ts0 lx0 where
    loop: "scanProgram_loop r l u [] = Inr (ts0, lx0, u')" and
    ts: "ts = ts0 @ [\<lparr>kind = EOF, lexeme = [], comments = lastComments lx0,
                  offset = int (position lx0)\<rparr>]" and lx: "lx = lx0\<lparr>lastComments := []\<rparr>"
    by (auto simp: scanProgram_def Let_def r_def [symmetric] l_def [symmetric] createToken_eq
        split: sum.splits)
  from scanProgram_loop_inv [OF loop loop_inv_start [of p, folded l_def]]
  show thesis using ts lx that by blast
qed

lemma tokenize_Inr:
  "tokenize p onError u = Inr (ts, u') \<longleftrightarrow>
   (\<exists>lx. scanProgram newClutchLexer (newStringScanner p) onError u = Inr (ts, lx, u'))"
  by (auto simp: tokenize_def split: sum.splits)

text \<open>
  Claim C1. For every input \<open>p\<close>, reporter and reporter state: a token sequence returned
  by \<open>tokenize\<close> ends with an \<open>EOF\<close> token, its offsets are non-decreasing, and every
  token of a kind other than \<open>EOF\<close> and \<open>STRING\<close> has as lexeme the slice of \<open>p\<close> that
  starts at its offset and has the lexeme's length. The empty input yields exactly
  \<open>[EOF]\<close>. A sequence is returned whenever the reporter returns normally.
\<close>

theorem tokenize_ends_with_eof_sorted_lexemes:
  "(tokenize p onError u = Inr (ts, u') \<longrightarrow>
      ts \<noteq> [] \<and> kind (last ts) = EOF \<and> sorted (map offset ts) \<and>
      (\<forall>t\<in>set ts. kind t \<noteq> EOF \<and> kind t \<noteq> STRING \<longrightarrow>
         substring p (offset t) (offset t + int (length (lexeme t))) = lexeme t)) \<and>
   tokenize [] onError u = Inr ([\<lparr>kind = EOF, lexeme = [], comments = [], offset = 0\<rparr>], u) \<and>
   (returns_normally r \<longrightarrow> (\<exists>ts u'. tokenize p (Some r) u = Inr (ts, u')))"
proof (intro conjI impI)
  assume "tokenize p onError u = Inr (ts, u')"
  then obtain lx where sp: "scanProgram newClutchLexer (newStringScanner p) onError u = Inr (ts, lx, u')"
    by (auto simp: tokenize_Inr)
  from sp obtain ts0 lx0 where inv: "loop_inv p lx0 ts0"
    and ts: "ts = ts0 @ [\<lparr>kind = EOF, lexeme = [], comments = lastComments lx0,
                  offset = int (position lx0)\<rparr>]"
    by (rule scanProgram_Inr)
  show "ts \<noteq> []" by (simp add: ts)
  show "kind (last ts) = EOF" by (simp add: ts)
  show "sorted (map offset ts)"
    using inv by (auto simp: ts loop_inv_def sorted_append)
  show "\<forall>t\<in>set ts. kind t \<noteq> EOF \<and> kind t \<noteq> STRING \<longrightarrow>
         substring p (offset t) (offset t + int (length (lexeme t))) = lexeme t"
    using inv by (auto simp: ts loop_inv_def)
next
  show "tokenize [] onError u = Inr ([\<lparr>kind = EOF, lexeme = [], comments = [], offset = 0\<rparr>], u)"
    by (simp add: tokenize_def scanProgram_def scanProgram_loop.simps hasNext_def
        scanner_length_def newStringScanner_def newSourceFile_def newClutchLexer_def
        createToken_eq Let_def)
next
  assume r: "returns_normally r"
  from scanProgram_loop_returns [OF r loop_inv_start [of p], of u]
  show "\<exists>ts u'. tokenize p (Some r) u = Inr (ts, u')"
    by (auto simp: tokenize_def scanProgram_def Let_def split_beta)
qed

text \<open>
  The witness of C1: \<open>x += 10\<close> with the recording reporter, which returns normally.
\<close>

theorem tokenize_ends_with_eof_sorted_lexemes_witness:
  "tokenize (str ''x += 10'') (Some recordingReporter) [] =
     Inr ([\<lparr>kind = IDENTIFIER, lexeme = str ''x'', comments = [], offset = 0\<rparr>,
           \<lparr>kind = PLUS_BY, lexeme = str ''+='', comments = [], offset = 2\<rparr>,
           \<lparr>kind = NUMBER, lexeme = str ''10'', comments = [], offset = 5\<rparr>,
           \<lparr>kind = EOF, lexeme = [], comments = [], offset = 7\<rparr>], []) \<and>
   returns_normally recordingReporter \<and>
   sorted [0, 2, 5, 7 :: int] \<and>
   substring (str ''x += 10'') 2 (2 + int (length (str ''+=''))) = str ''+=''"
proof -
  have ev: "tokenize (str ''x += 10'') (Some recordingReporter) [] =
     Inr ([\<lparr>kind = IDENTIFIER, lexeme = str ''x'', comments = [], offset = 0\<rparr>,
           \<lparr>kind = PLUS_BY, lexeme = str ''+='', comments = [], offset = 2\<rparr>,
           \<lparr>kind = NUMBER, lexeme = str ''10'', comments = [], offset = 5\<rparr>,
           \<lparr>kind = EOF, lexeme = [], comments = [], offset = 7\<rparr>], [])"
    by code_simp
  have rn: "returns_normally recordingReporter"
    by (simp add: returns_normally_def recordingReporter_def)
  let ?ts = "[\<lparr>kind = IDENTIFIER, lexeme = str ''x'', comments = [], offset = 0\<rparr>,
           \<lparr>kind = PLUS_BY, lexeme = str ''+='', comments = [], offset = 2\<rparr>,
           \<lparr>kind = NUMBER, lexeme = str ''10'', comments = [], offset = 5\<rparr>,
           \<lparr>kind = EOF, lexeme = [], comments = [], offset = 7\<rparr>]"
  note th = tokenize_ends_with_eof_sorted_lexemes [of "str ''x += 10''" "Some recordingReporter" "[]"
      ?ts "[]" recordingReporter]
  from th ev have a: "sorted (map offset ?ts)"
    and b: "\<forall>t\<in>set ?ts. kind t \<noteq> EOF \<and> kind t \<noteq> STRING \<longrightarrow>
         substring (str ''x += 10'') (offset t) (offset t + int (length (lexeme t))) = lexeme t"
    by blast+
  from a have a': "sorted [0, 2, 5, 7 :: int]" by simp
  from b have b': "substring (str ''x += 10'') 2 (2 + int (length (str ''+=''))) = str ''+=''"
    by simp
  from ev rn a' b' show ?thesis by blast
qed

text \<open>
  Claim C10. For every input, each comment record buffered during lexing (\<open>commentLog\<close>
  lists them in the order of buffering) is in the comments of exactly one token of the
  returned sequence, once: the comment lists of the tokens, concatenated, are the log,
  the log has no record twice, and the buffer is empty at the end.
\<close>

theorem buffered_comments_attached_exactly_once:
  assumes "tokenize p onError u = Inr (ts, u')"
  shows "\<exists>lx. scanProgram newClutchLexer (newStringScanner p) onError u = Inr (ts, lx, u') \<and>
              concat (map comments ts) = commentLog lx \<and> distinct (commentLog lx) \<and>
              lastComments lx = []"
proof -
  from assms obtain lx where sp: "scanProgram newClutchLexer (newStringScanner p) onError u = Inr (ts, lx, u')"
    by (auto simp: tokenize_Inr)
  from sp obtain ts0 lx0 where inv: "loop_inv p lx0 ts0"
    and ts: "ts = ts0 @ [\<lparr>kind = EOF, lexeme = [], comments = lastComments lx0,
                  offset = int (position lx0)\<rparr>]"
    and lx: "lx = lx0\<lparr>lastComments := []\<rparr>"
    by (rule scanProgram_Inr)
  from inv have "concat (map comments ts) = commentLog lx" "distinct (commentLog lx)"
    "lastComments lx = []"
    by (simp_all add: ts lx loop_inv_def)
  with sp show ?thesis by blast
qed

text \<open>
  The witness of C10: one comment goes to the identifier, the trailing one to \<open>EOF\<close>.
\<close>

theorem buffered_comments_attached_exactly_once_witness:
  "tokenize (str ''// a\<newline>x // b'') None () =
     Inr ([\<lparr>kind = IDENTIFIER, lexeme = str ''x'',
             comments = [\<lparr>comment_lexeme = str ''// a'', comment_offset = 5\<rparr>], offset = 5\<rparr>,
           \<lparr>kind = EOF, lexeme = [],
             comments = [\<lparr>comment_lexeme = str ''// b'', comment_offset = 11\<rparr>], offset = 11\<rparr>], ()) \<and>
   (\<exists>lx :: ClutchLexer. commentLog lx = [\<lparr>comment_lexeme = str ''// a'', comment_offset = 5\<rparr>,
                            \<lparr>comment_lexeme = str ''// b'', comment_offset = 11\<rparr>] \<and>
         lastComments lx = [])"
proof -
  define ts where "ts =
          [\<lparr>kind = IDENTIFIER, lexeme = str ''x'',
             comments = [\<lparr>comment_lexeme = str ''// a'', comment_offset = 5\<rparr>], offset = 5\<rparr>,
           \<lparr>kind = EOF, lexeme = [],
             comments = [\<lparr>comment_lexeme = str ''// b'', comment_offset = 11\<rparr>], offset = 11\<rparr>]"
  have ev: "tokenize (str ''// a\<newline>x // b'') None () = Inr (ts, ())"
    unfolding ts_def by code_simp
  from buffered_comments_attached_exactly_once [OF ev]
  obtain lx :: ClutchLexer
    where "concat (map comments ts) = commentLog lx" and "lastComments lx = []"
    by blast
  then have "commentLog lx = [\<lparr>comment_lexeme = str ''// a'', comment_offset = 5\<rparr>,
                            \<lparr>comment_lexeme = str ''// b'', comment_offset = 11\<rparr>] \<and>
         lastComments lx = []"
    by (simp add: ts_def)
  then have "\<exists>lx :: ClutchLexer. commentLog lx = [\<lparr>comment_lexeme = str ''// a'', comment_offset = 5\<rparr>,
                            \<lparr>comment_lexeme = str ''// b'', comment_offset = 11\<rparr>] \<and>
         lastComments lx = []" ..
  with ev [unfolded ts_def] show ?thesis by (rule conjI)
qed

section \<open>The lexer on the inputs of the specification\<close>

text \<open>
  The operators that start with \<open>=\<close> or \<open>!\<close>. \<open>equals_run p k\<close> is the length of the
  operator that starts at \<open>k\<close>: the character itself, one \<open>=\<close> behind it if there is
  one, and then a second if there is one. \<open>equals_family\<close> is the kind of the operator of
  that length. \<open>scanToken\<close> on such a character is proved to take exactly this run.
\<close>

definition equals_run :: "jsstring \<Rightarrow> nat \<Rightarrow> nat" where
  "equals_run p k =
     (if charCodeAt p (k + 1) = Some EQUALS_CHAR
      then (if charCodeAt p (k + 2) = Some EQUALS_CHAR then 3 else 2)
      else 1)"

definition equals_family :: "code_unit \<Rightarrow> nat \<Rightarrow> TokenKind" where
  "equals_family c n =
     (if c = EQUALS_CHAR
      then (if n = 3 then IDENTICAL else if n = 2 then EQUALS else ASSIGN)
      else (if n = 3 then NOT_IDENTICAL else if n = 2 then NOT_EQUALS else NEGATE))"

lemma equals_run_maximal:
  assumes "k < length p"
  shows "1 \<le> equals_run p k \<and> equals_run p k \<le> 3 \<and> k + equals_run p k \<le> length p \<and>
         take (equals_run p k) (drop k p) = p ! k # replicate (equals_run p k - 1) EQUALS_CHAR \<and>
         (equals_run p k = 3 \<or> charCodeAt p (k + equals_run p k) \<noteq> Some EQUALS_CHAR)"
proof -
  have d0: "drop k p = p ! k # drop (Suc k) p" using assms by (simp add: Cons_nth_drop_Suc)
  have d1: "drop (Suc k) p = p ! Suc k # drop (Suc (Suc k)) p" if "Suc k < length p"
    using that by (simp add: Cons_nth_drop_Suc)
  have d2: "drop (Suc (Suc k)) p = p ! Suc (Suc k) # drop (Suc (Suc (Suc k))) p"
    if "Suc (Suc k) < length p"
    using that by (simp add: Cons_nth_drop_Suc)
  show ?thesis
    using assms d0 d1 d2
    by (auto simp: equals_run_def charCodeAt_def numeral_3_eq_3 numeral_2_eq_2 split: if_splits)
qed

lemma scanToken_equals_family:
  assumes p: "contents (source (program lx)) = p"
    and k: "mPosition (program lx) = k" "k < length p"
    and c: "p ! k = EQUALS_CHAR \<or> p ! k = EXCLAIM"
  shows "scanToken onError lx u =
     Inr (Some \<lparr>kind = equals_family (p ! k) (equals_run p k),
                lexeme = substring p (int (position lx)) (int (k + equals_run p k)),
                comments = lastComments lx,
                offset = int (k + equals_run p k) -
                         int (length (substring p (int (position lx)) (int (k + equals_run p k))))\<rparr>,
          lx\<lparr>program := (program lx)\<lparr>mPosition := k + equals_run p k\<rparr>,
             position := k + equals_run p k, lastComments := []\<rparr>, u)"
proof -
  have adv: "advance (program lx) = (Some (p ! k), (program lx)\<lparr>mPosition := Suc k\<rparr>)"
    using p k by (simp add: advance_def charCodeAt_def)
  have m: "\<And>j. match_char ((program lx)\<lparr>mPosition := j\<rparr>) EQUALS_CHAR =
      (if charCodeAt p j = Some EQUALS_CHAR
       then (True, (program lx)\<lparr>mPosition := Suc j\<rparr>)
       else (False, (program lx)\<lparr>mPosition := j\<rparr>))"
    using p by (simp add: match_char_def peek_def)
  have run: "equals_run p k =
      (if charCodeAt p (Suc k) = Some EQUALS_CHAR
       then (if charCodeAt p (Suc (Suc k)) = Some EQUALS_CHAR then 3 else 2) else 1)"
    by (simp add: equals_run_def)
  have pos: "k + equals_run p k =
      (if charCodeAt p (Suc k) = Some EQUALS_CHAR
       then (if charCodeAt p (Suc (Suc k)) = Some EQUALS_CHAR then Suc (Suc (Suc k))
             else Suc (Suc k)) else Suc k)"
    by (simp add: equals_run_def)
  from c show ?thesis
  proof
    assume e: "p ! k = EQUALS_CHAR"
    show ?thesis
      unfolding scanToken_def adv Let_def prod.case e
      by (simp add: lexer_match_def m token1_def createToken0_eq emit_def scanner_substring_def p
          pos equals_family_def del: of_nat_Suc of_nat_add)
         (simp add: run)
  next
    assume e: "p ! k = EXCLAIM"
    show ?thesis
      unfolding scanToken_def adv Let_def prod.case e
      by (simp add: lexer_match_def m token1_def createToken0_eq emit_def scanner_substring_def p
          pos equals_family_def del: of_nat_Suc of_nat_add)
         (simp add: run)
  qed
qed

text \<open>
  Claim C5. \<open>=\<close> and \<open>!\<close> are disambiguated by maximal munch in two levels. In every
  state of the lexer whose cursor \<open>k\<close> is on a \<open>=\<close> or a \<open>!\<close>, \<open>scanToken\<close> returns
  a token and reports nothing; the token consumes \<open>n\<close> characters, the character at the
  cursor and the \<open>n - 1\<close> characters \<open>=\<close> behind it, where \<open>n\<close> is at most 3 and is
  maximal: either \<open>n = 3\<close>, or the character behind the run is not a \<open>=\<close> (or the input
  ends there). The kind is \<open>IDENTICAL\<close>, \<open>EQUALS\<close>, \<open>ASSIGN\<close> for \<open>n = 3, 2, 1\<close> on
  \<open>=\<close>, and \<open>NOT_IDENTICAL\<close>, \<open>NOT_EQUALS\<close>, \<open>NEGATE\<close> on \<open>!\<close>; the lexeme starts at
  the anchor, the cursor and the anchor move behind the run, and the token takes the
  buffered comments. And \<open>tokenize("a === b !== c")\<close> is \<open>IDENTIFIER(a)\<close>,
  \<open>IDENTICAL(===)\<close>, \<open>IDENTIFIER(b)\<close>, \<open>NOT_IDENTICAL(!==)\<close>, \<open>IDENTIFIER(c)\<close>,
  \<open>EOF\<close>.
\<close>

theorem equals_and_exclaim_two_level_maximal_munch:
  "(contents (source (program lx)) = p \<and> mPosition (program lx) = k \<and> position lx \<le> k \<and>
    k < length p \<and> (p ! k = EQUALS_CHAR \<or> p ! k = EXCLAIM) \<longrightarrow>
    (\<exists>n. scanToken onError lx u =
            Inr (Some \<lparr>kind = (if p ! k = EQUALS_CHAR
                               then (if n = 3 then IDENTICAL else if n = 2 then EQUALS else ASSIGN)
                               else (if n = 3 then NOT_IDENTICAL else if n = 2 then NOT_EQUALS
                                     else NEGATE)),
                       lexeme = take (k + n - position lx) (drop (position lx) p),
                       comments = lastComments lx,
                       offset = int (position lx)\<rparr>,
                 lx\<lparr>program := (program lx)\<lparr>mPosition := k + n\<rparr>,
                    position := k + n, lastComments := []\<rparr>, u) \<and>
          1 \<le> n \<and> n \<le> 3 \<and> k + n \<le> length p \<and>
          take n (drop k p) = p ! k # replicate (n - 1) EQUALS_CHAR \<and>
          (n = 3 \<or> charCodeAt p (k + n) \<noteq> Some EQUALS_CHAR))) \<and>
   tokenize (str ''a === b !== c'') None () =
     Inr ([\<lparr>kind = IDENTIFIER, lexeme = str ''a'', comments = [], offset = 0\<rparr>,
           \<lparr>kind = IDENTICAL, lexeme = str ''==='', comments = [], offset = 2\<rparr>,
           \<lparr>kind = IDENTIFIER, lexeme = str ''b'', comments = [], offset = 6\<rparr>,
           \<lparr>kind = NOT_IDENTICAL, lexeme = str ''!=='', comments = [], offset = 8\<rparr>,
           \<lparr>kind = IDENTIFIER, lexeme = str ''c'', comments = [], offset = 12\<rparr>,
           \<lparr>kind = EOF, lexeme = [], comments = [], offset = 13\<rparr>], ())"
proof (intro conjI impI)
  assume a: "contents (source (program lx)) = p \<and> mPosition (program lx) = k \<and>
    position lx \<le> k \<and> k < length p \<and> (p ! k = EQUALS_CHAR \<or> p ! k = EXCLAIM)"
  define n where "n = equals_run p k"
  from a have mx: "1 \<le> n \<and> n \<le> 3 \<and> k + n \<le> length p \<and>
          take n (drop k p) = p ! k # replicate (n - 1) EQUALS_CHAR \<and>
          (n = 3 \<or> charCodeAt p (k + n) \<noteq> Some EQUALS_CHAR)"
    unfolding n_def by (intro equals_run_maximal) simp
  have le: "position lx \<le> k + n" "k + n \<le> length p" using a mx by simp_all
  have st: "scanToken onError lx u =
     Inr (Some \<lparr>kind = equals_family (p ! k) n,
                lexeme = substring p (int (position lx)) (int (k + n)),
                comments = lastComments lx,
                offset = int (k + n) -
                         int (length (substring p (int (position lx)) (int (k + n))))\<rparr>,
          lx\<lparr>program := (program lx)\<lparr>mPosition := k + n\<rparr>,
             position := k + n, lastComments := []\<rparr>, u)"
    unfolding n_def using a by (intro scanToken_equals_family) simp_all
  have sub: "substring p (int (position lx)) (int (k + n)) =
      take (k + n - position lx) (drop (position lx) p)"
    by (rule substring_nat [OF le])
  have off: "int (k + n) - int (length (take (k + n - position lx) (drop (position lx) p))) =
      int (position lx)"
  proof -
    have "length (take (k + n - position lx) (drop (position lx) p)) = k + n - position lx"
      using le by auto
    then show ?thesis using le by (simp only: of_nat_diff)
  qed
  have kd: "equals_family (p ! k) n = (if p ! k = EQUALS_CHAR
                               then (if n = 3 then IDENTICAL else if n = 2 then EQUALS else ASSIGN)
                               else (if n = 3 then NOT_IDENTICAL else if n = 2 then NOT_EQUALS
                                     else NEGATE))"
    by (simp add: equals_family_def)
  show "\<exists>n. scanToken onError lx u =
            Inr (Some \<lparr>kind = (if p ! k = EQUALS_CHAR
                               then (if n = 3 then IDENTICAL else if n = 2 then EQUALS else ASSIGN)
                               else (if n = 3 then NOT_IDENTICAL else if n = 2 then NOT_EQUALS
                                     else NEGATE)),
                       lexeme = take (k + n - position lx) (drop (position lx) p),
                       comments = lastComments lx,
                       offset = int (position lx)\<rparr>,
                 lx\<lparr>program := (program lx)\<lparr>mPosition := k + n\<rparr>,
                    position := k + n, lastComments := []\<rparr>, u) \<and>
          1 \<le> n \<and> n \<le> 3 \<and> k + n \<le> length p \<and>
          take n (drop k p) = p ! k # replicate (n - 1) EQUALS_CHAR \<and>
          (n = 3 \<or> charCodeAt p (k + n) \<noteq> Some EQUALS_CHAR)"
    using mx st [unfolded sub off kd] by (intro exI [of _ n] conjI) simp_all
next
  show "tokenize (str ''a === b !== c'') None () =
     Inr ([\<lparr>kind = IDENTIFIER, lexeme = str ''a'', comments = [], offset = 0\<rparr>,
           \<lparr>kind = IDENTICAL, lexeme = str ''==='', comments = [], offset = 2\<rparr>,
           \<lparr>kind = IDENTIFIER, lexeme = str ''b'', comments = [], offset = 6\<rparr>,
           \<lparr>kind = NOT_IDENTICAL, lexeme = str ''!=='', comments = [], offset = 8\<rparr>,
           \<lparr>kind = IDENTIFIER, lexeme = str ''c'', comments = [], offset = 12\<rparr>,
           \<lparr>kind = EOF, lexeme = [], comments = [], offset = 13\<rparr>], ())"
    by code_simp
qed

text \<open>
  The witness of C5: \<open>===\<close> at the end of the input \<open>a ===\<close> is one token
  \<open>IDENTICAL\<close>, and \<open>!=\<close> before \<open>x\<close> is \<open>NOT_EQUALS\<close>.
\<close>

theorem equals_and_exclaim_two_level_maximal_munch_witness:
  "scanToken defaultOnError
     \<lparr>program = \<lparr>source = newSourceFile (str ''a ==='') None, mPosition = 2\<rparr>,
      position = 2, lastComments = [], commentLog = []\<rparr> () =
   Inr (Some \<lparr>kind = IDENTICAL, lexeme = str ''==='', comments = [], offset = 2\<rparr>,
        \<lparr>program = \<lparr>source = newSourceFile (str ''a ==='') None, mPosition = 5\<rparr>,
         position = 5, lastComments = [], commentLog = []\<rparr>, ()) \<and>
   scanToken defaultOnError
     \<lparr>program = \<lparr>source = newSourceFile (str ''!=x'') None, mPosition = 0\<rparr>,
      position = 0, lastComments = [], commentLog = []\<rparr> () =
   Inr (Some \<lparr>kind = NOT_EQUALS, lexeme = str ''!='', comments = [], offset = 0\<rparr>,
        \<lparr>program = \<lparr>source = newSourceFile (str ''!=x'') None, mPosition = 2\<rparr>,
         position = 2, lastComments = [], commentLog = []\<rparr>, ())"
proof -
  note th = equals_and_exclaim_two_level_maximal_munch
  define p where "p = str ''a ===''"
  define lx :: ClutchLexer where "lx =
     \<lparr>program = \<lparr>source = newSourceFile p None, mPosition = 2\<rparr>,
      position = 2, lastComments = [], commentLog = []\<rparr>"
  have pv: "p = [97, 32, 61, 61, 61]" by (simp add: p_def str_def)
  have h: "contents (source (program lx)) = p \<and> mPosition (program lx) = 2 \<and>
      position lx \<le> 2 \<and> 2 < length p \<and> (p ! 2 = EQUALS_CHAR \<or> p ! 2 = EXCLAIM)"
    by (simp add: lx_def newSourceFile_def pv)
  from th [of lx p 2 defaultOnError "()"] h obtain n where
    st: "scanToken defaultOnError lx () =
            Inr (Some \<lparr>kind = (if p ! 2 = EQUALS_CHAR
                               then (if n = 3 then IDENTICAL else if n = 2 then EQUALS else ASSIGN)
                               else (if n = 3 then NOT_IDENTICAL else if n = 2 then NOT_EQUALS
                                     else NEGATE)),
                       lexeme = take (2 + n - position lx) (drop (position lx) p),
                       comments = lastComments lx,
                       offset = int (position lx)\<rparr>,
                 lx\<lparr>program := (program lx)\<lparr>mPosition := 2 + n\<rparr>,
                    position := 2 + n, lastComments := []\<rparr>, ())"
    and n: "1 \<le> n" "n \<le> 3" "n = 3 \<or> charCodeAt p (2 + n) \<noteq> Some EQUALS_CHAR"
    by blast
  from n have "n = 1 \<or> n = 2 \<or> n = 3" by arith
  with n(3) have n3: "n = 3" by (auto simp: charCodeAt_def pv)
  have a: "scanToken defaultOnError lx () =
     Inr (Some \<lparr>kind = IDENTICAL, lexeme = str ''==='', comments = [], offset = 2\<rparr>,
        \<lparr>program = \<lparr>source = newSourceFile p None, mPosition = 5\<rparr>,
         position = 5, lastComments = [], commentLog = []\<rparr>, ())"
    using st unfolding n3 by (simp add: lx_def pv str_def)
  define q where "q = str ''!=x''"
  define ly :: ClutchLexer where "ly =
     \<lparr>program = \<lparr>source = newSourceFile q None, mPosition = 0\<rparr>,
      position = 0, lastComments = [], commentLog = []\<rparr>"
  have qv: "q = [33, 61, 120]" by (simp add: q_def str_def)
  have h: "contents (source (program ly)) = q \<and> mPosition (program ly) = 0 \<and>
      position ly \<le> 0 \<and> 0 < length q \<and> (q ! 0 = EQUALS_CHAR \<or> q ! 0 = EXCLAIM)"
    by (simp add: ly_def newSourceFile_def qv)
  from th [of ly q 0 defaultOnError "()"] h obtain m where
    st: "scanToken defaultOnError ly () =
            Inr (Some \<lparr>kind = (if q ! 0 = EQUALS_CHAR
                               then (if m = 3 then IDENTICAL else if m = 2 then EQUALS else ASSIGN)
                               else (if m = 3 then NOT_IDENTICAL else if m = 2 then NOT_EQUALS
                                     else NEGATE)),
                       lexeme = take (0 + m - position ly) (drop (position ly) q),
                       comments = lastComments ly,
                       offset = int (position ly)\<rparr>,
                 ly\<lparr>program := (program ly)\<lparr>mPosition := 0 + m\<rparr>,
                    position := 0 + m, lastComments := []\<rparr>, ())"
    and m: "1 \<le> m" "m \<le> 3" "take m (drop 0 q) = q ! 0 # replicate (m - 1) EQUALS_CHAR"
      "m = 3 \<or> charCodeAt q (0 + m) \<noteq> Some EQUALS_CHAR"
    by blast
  from m have "m = 1 \<or> m = 2 \<or> m = 3" by arith
  with m(3,4) have m2: "m = 2" by (auto simp: charCodeAt_def qv numeral_3_eq_3)
  have b: "scanToken defaultOnError ly () =
     Inr (Some \<lparr>kind = NOT_EQUALS, lexeme = str ''!='', comments = [], offset = 0\<rparr>,
        \<lparr>program = \<lparr>source = newSourceFile q None, mPosition = 2\<rparr>,
         position = 2, lastComments = [], commentLog = []\<rparr>, ())"
    using st unfolding m2 by (simp add: ly_def qv str_def)
  from a b show ?thesis unfolding lx_def ly_def p_def q_def by (rule conjI)
qed

text \<open>
  The shorter forms stop at the first \<open>=\<close> that is missing: \<open>==\<close> and \<open>!=\<close>, then
  \<open>=\<close> and \<open>!\<close>.
\<close>

lemma tokenize_equals_assign_negate:
  "tokenize (str ''a == b != c = !d'') None () =
     Inr ([\<lparr>kind = IDENTIFIER, lexeme = str ''a'', comments = [], offset = 0\<rparr>,
           \<lparr>kind = EQUALS, lexeme = str ''=='', comments = [], offset = 2\<rparr>,
           \<lparr>kind = IDENTIFIER, lexeme = str ''b'', comments = [], offset = 5\<rparr>,
           \<lparr>kind = NOT_EQUALS, lexeme = str ''!='', comments = [], offset = 7\<rparr>,
           \<lparr>kind = IDENTIFIER, lexeme = str ''c'', comments = [], offset = 10\<rparr>,
           \<lparr>kind = ASSIGN, lexeme = str ''='', comments = [], offset = 12\<rparr>,
           \<lparr>kind = NEGATE, lexeme = str ''!'', comments = [], offset = 14\<rparr>,
           \<lparr>kind = IDENTIFIER, lexeme = str ''d'', comments = [], offset = 15\<rparr>,
           \<lparr>kind = EOF, lexeme = [], comments = [], offset = 16\<rparr>], ())"
  by code_simp

text \<open>
  Claim C9 says that the comment record carries the offset where the comment starts. On
  \<open>// hi LF let x = 1\<close> the tokens are the ones the claim lists and \<open>LET\<close> carries
  the comment \<open>// hi\<close>, but the record's offset is 6, the cursor behind the line
  terminator, and not 0: \<open>this.substring()\<close> has moved the anchor before \<open>offset\<close> is
  read.
\<close>

theorem line_comment_offset_after_terminator:
  "tokenize (str ''// hi\<newline>let x = 1'') None () =
     Inr ([\<lparr>kind = LET, lexeme = str ''let'',
             comments = [\<lparr>comment_lexeme = str ''// hi'', comment_offset = 6\<rparr>], offset = 6\<rparr>,
           \<lparr>kind = IDENTIFIER, lexeme = str ''x'', comments = [], offset = 10\<rparr>,
           \<lparr>kind = ASSIGN, lexeme = str ''='', comments = [], offset = 12\<rparr>,
           \<lparr>kind = NUMBER, lexeme = str ''1'', comments = [], offset = 14\<rparr>,
           \<lparr>kind = EOF, lexeme = [], comments = [], offset = 15\<rparr>], ())"
  by code_simp

lemma scanString_loop_unterminated:
  "mPosition sc \<le> length (contents (source sc)) \<Longrightarrow>
   SQUOTE \<notin> set (drop (mPosition sc) (contents (source sc))) \<Longrightarrow>
   scanString_loop sc = (False, sc\<lparr>mPosition := length (contents (source sc))\<rparr>)"
proof (induction sc rule: scanString_loop.induct)
  case (1 sc)
  define p where "p = contents (source sc)"
  define k where "k = mPosition sc"
  show ?case
  proof (cases "hasNext sc")
    case False
    with "1.prems" have "k = length p" by (simp add: hasNext_def scanner_length_def p_def k_def)
    then show ?thesis
      using False by (subst scanString_loop.simps) (simp add: p_def k_def)
  next
    case True
    then have kl: "k < length p" by (simp add: hasNext_def scanner_length_def p_def k_def)
    then have dr: "drop k p = p ! k # drop (Suc k) p" by (simp add: Cons_nth_drop_Suc)
    with "1.prems"(2) have nq: "p ! k \<noteq> SQUOTE" "SQUOTE \<notin> set (drop (Suc k) p)"
      by (auto simp: p_def k_def)
    have m: "match_char sc SQUOTE = (False, sc)"
      using kl nq by (simp add: match_char_def peek_def charCodeAt_def p_def k_def)
    have adv: "snd (advance sc) = sc\<lparr>mPosition := Suc k\<rparr>" by (simp add: advance_def k_def)
    have "scanString_loop (snd (advance sc)) =
        (False, (snd (advance sc))\<lparr>mPosition := length (contents (source (snd (advance sc))))\<rparr>)"
      using kl nq
      by (intro "1.IH" [OF True refl m [symmetric]]) (simp_all add: adv p_def [symmetric])
    then show ?thesis
      using True m by (subst scanString_loop.simps) (simp add: adv)
  qed
qed

text \<open>
  An unterminated string whose opening quote is where the anchor is: the error is
  reported at the quote, and when the reporter returns the token is a \<open>STRING\<close> with
  everything behind the quote as its lexeme; the scanner is then at the end of the input.
\<close>

lemma scanToken_unterminated_string:
  assumes p: "contents (source (program lx)) = p"
    and k: "mPosition (program lx) = k" "position lx = k" "k < length p"
    and q: "p ! k = SQUOTE" "SQUOTE \<notin> set (drop (Suc k) p)"
    and r: "onError \<lparr>span_file = source (program lx), span_offset = int k, span_text = [SQUOTE]\<rparr>
              (str ''Unterminated string'') u = Inr u'"
  shows "scanToken onError lx u =
     Inr (Some \<lparr>kind = STRING, lexeme = drop (Suc k) p, comments = lastComments lx,
                offset = int (Suc k)\<rparr>,
          lx\<lparr>program := (program lx)\<lparr>mPosition := length p\<rparr>, position := length p,
             lastComments := []\<rparr>, u')"
proof -
  have adv: "advance (program lx) = (Some SQUOTE, (program lx)\<lparr>mPosition := Suc k\<rparr>)"
    using p k q by (simp add: advance_def charCodeAt_def)
  have loop: "scanString_loop ((program lx)\<lparr>mPosition := Suc k\<rparr>) =
      (False, (program lx)\<lparr>mPosition := length p\<rparr>)"
    using scanString_loop_unterminated [of "(program lx)\<lparr>mPosition := Suc k\<rparr>"] p k q
    by simp
  have sp: "substring p (int k) (int k + 1) = [SQUOTE]"
    using k q substring_nat [of k "Suc k" p] by (simp add: take_Suc_conv_app_nth add.commute)
  have rep: "reportError onError (str ''Unterminated string'')
      (lx\<lparr>program := (program lx)\<lparr>mPosition := length p\<rparr>\<rparr>) u = Inr u'"
    using k r by (simp add: reportError_def span_def assertValidOffset_def file_length_def p sp)
  have sub: "substring p (int (Suc k)) (int (length p)) = drop (Suc k) p"
    using k substring_nat [of "Suc k" "length p" p] by simp
  show ?thesis
    unfolding scanToken_def adv Let_def prod.case
    using k
    by (simp add: scanString_def loop rep createToken0_eq scanner_substring_def p sub
        del: of_nat_Suc)
qed

text \<open>
  The example of the specification: \<open>'unterm\<close> with a reporter that returns. The
  error is reported at the quote, and a \<open>STRING\<close> token with the lexeme \<open>unterm\<close>
  and \<open>EOF\<close> are emitted.
\<close>

lemma unterminated_string_example:
  "tokenize (SQUOTE # str ''unterm'') (Some recordingReporter) [] =
     Inr ([\<lparr>kind = STRING, lexeme = str ''unterm'', comments = [], offset = 1\<rparr>,
           \<lparr>kind = EOF, lexeme = [], comments = [], offset = 7\<rparr>],
          [(0, [SQUOTE], str ''Unterminated string'')])"
  by code_simp

text \<open>
  Claim C6 says that the lexeme of the token of every unterminated string is the consumed
  text without the opening quote. After an unexpected character the anchor stays on
  that character (only the white space branch moves it), so on \<open>#'abc\<close> the
  unterminated string is reported at \<open>#\<close> and \<open>this.position++\<close> skips \<open>#\<close>: the
  lexeme is \<open>'abc\<close>, with the opening quote.
\<close>

theorem unterminated_string_after_unexpected_character:
  "tokenize (str ''#'' @ SQUOTE # str ''abc'') (Some recordingReporter) [] =
     Inr ([\<lparr>kind = STRING, lexeme = SQUOTE # str ''abc'', comments = [], offset = 1\<rparr>,
           \<lparr>kind = EOF, lexeme = [], comments = [], offset = 5\<rparr>],
          [(0, str ''#'', str ''Unexpected character '' @ [DQUOTE] @ str ''#'' @ [DQUOTE]),
           (0, str ''#'', str ''Unterminated string'')])"
  by code_simp


section \<open>Inputs of white space and comments only\<close>

text \<open>
  The inputs that consist only of white space and line comments, in the words of the
  specification. \<open>skip_line\<close> is what follows a comment: the text behind the first
  \<open>LF\<close>, \<open>CR\<close> or \<open>CR+LF\<close>, or nothing when the input ends first. \<open>trivia p\<close>
  is \<open>None\<close> when \<open>p\<close> has anything but white space and comments, and otherwise the
  trimmed texts of its comments, in order.
\<close>

primrec skip_line :: "jsstring \<Rightarrow> jsstring" where
  "skip_line [] = []"
| "skip_line (c # cs) =
     (if c = LF then cs
      else if c = CR then (case cs of [] \<Rightarrow> [] | d # ds \<Rightarrow> if d = LF then ds else cs)
      else skip_line cs)"

lemma length_skip_line: "length (skip_line cs) \<le> length cs"
  by (induction cs) (auto split: list.splits)

function trivia :: "jsstring \<Rightarrow> jsstring list option" where
  "trivia [] = Some []"
| "trivia (c # cs) =
     (if isWhiteSpace (Some c) then trivia cs
      else if c = SLASH_CHAR \<and> take 1 cs = [SLASH_CHAR] then
        (let rest = skip_line (tl cs)
         in map_option (Cons (trim (take (length (c # cs) - length rest) (c # cs))))
              (trivia rest))
      else None)"
  by pat_completeness auto
termination
proof (relation "measure length", goal_cases)
  case 1
  show ?case by simp
next
  case (2 c cs)
  then show ?case by simp
next
  case (3 c cs rest)
  have "length (skip_line (tl cs)) \<le> length (tl cs)" by (rule length_skip_line)
  with 3 show ?case by simp
qed


lemma advanceToEOL_skip_line:
  "mPosition sc \<le> length (contents (source sc)) \<Longrightarrow>
   advanceToEOL sc =
     sc\<lparr>mPosition := length (contents (source sc)) -
                       length (skip_line (drop (mPosition sc) (contents (source sc))))\<rparr>"
proof (induction sc rule: advanceToEOL.induct)
  case (1 sc)
  define p where "p = contents (source sc)"
  define k where "k = mPosition sc"
  show ?case
  proof (cases "hasNext sc")
    case False
    with "1.prems" have "k = length p" by (simp add: hasNext_def scanner_length_def p_def k_def)
    then show ?thesis
      using False by (subst advanceToEOL.simps) (simp add: p_def k_def)
  next
    case True
    then have kl: "k < length p" by (simp add: hasNext_def scanner_length_def p_def k_def)
    then have dr: "drop k p = p ! k # drop (Suc k) p" by (simp add: Cons_nth_drop_Suc)
    have pk: "peek sc = Some (p ! k)" using kl by (simp add: peek_def charCodeAt_def p_def k_def)
    show ?thesis
    proof (cases "p ! k = LF")
      case lf: True
      then show ?thesis
        using True kl dr pk
        by (subst advanceToEOL.simps)
           (simp add: match_char_def p_def [symmetric] k_def [symmetric])
    next
      case nlf: False
      show ?thesis
      proof (cases "p ! k = CR")
        case cr: True
        show ?thesis
        proof (cases "Suc k < length p")
          case True
          then have dr2: "drop (Suc k) p = p ! Suc k # drop (Suc (Suc k)) p"
            by (simp add: Cons_nth_drop_Suc)
          from True show ?thesis
            using \<open>hasNext sc\<close> kl dr dr2 pk cr
            by (subst advanceToEOL.simps)
               (auto simp: match_char_def peek_def charCodeAt_def p_def [symmetric] k_def [symmetric])
        next
          case False
          then have "drop (Suc k) p = []" by simp
          then show ?thesis
            using \<open>hasNext sc\<close> kl dr pk cr False
            by (subst advanceToEOL.simps)
               (auto simp: match_char_def peek_def charCodeAt_def p_def [symmetric] k_def [symmetric])
        qed
      next
        case ncr: False
        have m: "match_char sc LF = (False, sc)" "match_char sc CR = (False, sc)"
          using pk nlf ncr by (simp_all add: match_char_def)
        have adv: "snd (advance sc) = sc\<lparr>mPosition := Suc k\<rparr>"
          by (simp add: advance_def k_def)
        have "advanceToEOL (snd (advance sc)) =
            (snd (advance sc))\<lparr>mPosition := length (contents (source (snd (advance sc)))) -
               length (skip_line (drop (mPosition (snd (advance sc)))
                 (contents (source (snd (advance sc))))))\<rparr>"
          using kl
          by (intro "1.IH" [OF True refl m(1) [symmetric] _ refl m(2) [symmetric]])
             (simp_all add: adv p_def [symmetric])
        then have "advanceToEOL (snd (advance sc)) =
            sc\<lparr>mPosition := length p - length (skip_line (drop (Suc k) p))\<rparr>"
          by (simp add: adv p_def [symmetric])
        moreover have "skip_line (drop k p) = skip_line (drop (Suc k) p)"
          using nlf ncr by (simp add: dr)
        ultimately show ?thesis
          using True m by (subst advanceToEOL.simps) (simp add: p_def [symmetric] k_def [symmetric])
      qed
    qed
  qed
qed



lemma drop_skip_line: "drop (length xs - length (skip_line xs)) xs = skip_line xs"
proof (induction xs)
  case Nil
  show ?case by simp
next
  case (Cons c cs)
  have le: "length (skip_line cs) \<le> length cs" by (rule length_skip_line)
  show ?case
  proof (cases "c = LF \<or> c = CR")
    case True
    then consider (a) "skip_line (c # cs) = cs" | (b) d ds where "cs = d # ds" "skip_line (c # cs) = ds"
    proof (cases cs)
      case Nil
      with True a show thesis by auto
    next
      case (Cons d ds)
      show thesis
      proof (cases "c = CR \<and> d = LF")
        case True
        with Cons b show thesis by simp
      next
        case False
        with Cons \<open>c = LF \<or> c = CR\<close> a show thesis by auto
      qed
    qed
    then show ?thesis
    proof cases
      case a
      then show ?thesis by simp
    next
      case b
      then show ?thesis by simp
    qed
  next
    case False
    then have "skip_line (c # cs) = skip_line cs" by simp
    moreover have "length (c # cs) - length (skip_line cs) = Suc (length cs - length (skip_line cs))"
      using le by simp
    ultimately show ?thesis using Cons.IH by simp
  qed
qed

lemma drop_skip_line_at:
  assumes "j \<le> length p"
  shows "drop (length p - length (skip_line (drop j p))) p = skip_line (drop j p)"
proof -
  have le: "length (skip_line (drop j p)) \<le> length p - j"
    using length_skip_line [of "drop j p"] by simp
  then have "length p - length (skip_line (drop j p)) =
      (length (drop j p) - length (skip_line (drop j p))) + j"
    using assms by simp
  then have "drop (length p - length (skip_line (drop j p))) p =
      drop (length (drop j p) - length (skip_line (drop j p))) (drop j p)"
    by (simp only: drop_drop)
  then show ?thesis by (simp only: drop_skip_line)
qed

lemma scanToken_white_space:
  assumes "mPosition (program lx) < length (contents (source (program lx)))"
    and "isWhiteSpace (Some (contents (source (program lx)) ! mPosition (program lx)))"
  shows "scanToken onError lx u =
     Inr (None, lx\<lparr>program := (program lx)\<lparr>mPosition := mPosition (program lx) + 1\<rparr>,
                    position := mPosition (program lx) + 1\<rparr>, u)"
proof -
  define c where "c = contents (source (program lx)) ! mPosition (program lx)"
  have adv: "advance (program lx) =
      (Some c, (program lx)\<lparr>mPosition := mPosition (program lx) + 1\<rparr>)"
    using assms(1) by (simp add: advance_def charCodeAt_def c_def)
  from assms(2) have "c = 32 \<or> c = 9 \<or> c = LF \<or> c = CR"
    by (simp add: isWhiteSpace_def c_def)
  then show ?thesis
    unfolding scanToken_def adv Let_def prod.case
    by (elim disjE) (simp_all add: emit_def isWhiteSpace_def)
qed

lemma scanToken_line_comment:
  assumes k: "mPosition (program lx) = k" "position lx \<le> k"
    and p: "contents (source (program lx)) = p"
    and sl: "Suc k < length p" "p ! k = SLASH_CHAR" "p ! Suc k = SLASH_CHAR"
  defines "e \<equiv> length p - length (skip_line (drop (Suc (Suc k)) p))"
  defines "c \<equiv> \<lparr>comment_lexeme = trim (take (e - position lx) (drop (position lx) p)),
                  comment_offset = int e\<rparr>"
  shows "scanToken onError lx u =
     Inr (None, lx\<lparr>program := (program lx)\<lparr>mPosition := e\<rparr>, position := e,
                    lastComments := lastComments lx @ [c],
                    commentLog := commentLog lx @ [c]\<rparr>, u)"
proof -
  have adv: "advance (program lx) = (Some SLASH_CHAR, (program lx)\<lparr>mPosition := Suc k\<rparr>)"
    using k p sl by (simp add: advance_def charCodeAt_def)
  have m: "match_char ((program lx)\<lparr>mPosition := Suc k\<rparr>) SLASH_CHAR =
      (True, (program lx)\<lparr>mPosition := Suc (Suc k)\<rparr>)"
    using p sl by (simp add: match_char_def peek_def charCodeAt_def)
  have eol: "advanceToEOL ((program lx)\<lparr>mPosition := Suc (Suc k)\<rparr>) = (program lx)\<lparr>mPosition := e\<rparr>"
    using sl p by (subst advanceToEOL_skip_line) (simp_all add: e_def)
  have le: "length (skip_line (drop (Suc (Suc k)) p)) \<le> length p - Suc (Suc k)"
    using length_skip_line [of "drop (Suc (Suc k)) p"] by simp
  then have ke: "position lx \<le> e" "e \<le> length p" using sl k by (simp_all add: e_def)
  have sub: "substring p (int (position lx)) (int e) =
      take (e - position lx) (drop (position lx) p)"
    using ke by (rule substring_nat)
  show ?thesis
    unfolding scanToken_def adv Let_def prod.case
    by (simp add: emit_def scanSlash_def m eol lexer_substring_def scanner_substring_def p sub
        c_def Let_def)
qed


text \<open>The lexer's state once everything up to \<open>length p\<close> has been skipped as trivia.\<close>

definition after_trivia :: "ClutchLexer \<Rightarrow> nat \<Rightarrow> IComment list \<Rightarrow> ClutchLexer" where
  "after_trivia lx n new =
     lx\<lparr>program := (program lx)\<lparr>mPosition := n\<rparr>, position := n,
        lastComments := lastComments lx @ new, commentLog := commentLog lx @ new\<rparr>"

lemma scanProgram_loop_trivia:
  "trivia rest = Some texts \<Longrightarrow> contents (source (program lx)) = p \<Longrightarrow>
   mPosition (program lx) = k \<Longrightarrow> position lx = k \<Longrightarrow> k \<le> length p \<Longrightarrow>
   drop k p = rest \<Longrightarrow>
   \<exists>new. scanProgram_loop onError lx u tokens = Inr (tokens, after_trivia lx (length p) new, u) \<and>
         map comment_lexeme new = texts"
proof (induction rest arbitrary: texts lx k rule: trivia.induct)
  case 1
  then have "k = length p" by simp
  with 1 have "\<not> hasNext (program lx)" by (simp add: hasNext_def scanner_length_def)
  moreover have "after_trivia lx (length p) [] = lx"
    using 1 \<open>k = length p\<close> by (simp add: after_trivia_def)
  ultimately show ?case
    using 1 by (subst scanProgram_loop.simps) simp
next
  case (2 c cs)
  from "2.prems" have kl: "k < length p" by (cases "k < length p") simp_all
  then have dr: "drop k p = p ! k # drop (Suc k) p" by (simp add: Cons_nth_drop_Suc)
  with "2.prems" have c: "p ! k = c" and cs: "drop (Suc k) p = cs" by simp_all
  have nxt: "hasNext (program lx)"
    using kl "2.prems" by (simp add: hasNext_def scanner_length_def)
  show ?case
  proof (cases "isWhiteSpace (Some c)")
    case True
    define lx1 where "lx1 = lx\<lparr>program := (program lx)\<lparr>mPosition := Suc k\<rparr>, position := Suc k\<rparr>"
    have st: "scanToken onError lx u = Inr (None, lx1, u)"
      using scanToken_white_space [of lx onError u] kl True c "2.prems"
      by (simp add: lx1_def)
    from "2.prems"(1) True have tr: "trivia cs = Some texts" by simp
    from "2.IH"(1) [OF True tr, of lx1 "Suc k"] "2.prems" kl cs
    obtain new where
      loop: "scanProgram_loop onError lx1 u tokens = Inr (tokens, after_trivia lx1 (length p) new, u)"
      and new: "map comment_lexeme new = texts"
      by (auto simp: lx1_def)
    have "after_trivia lx1 (length p) new = after_trivia lx (length p) new"
      by (simp add: after_trivia_def lx1_def)
    with loop new nxt st show ?thesis
      by (subst scanProgram_loop.simps) auto
  next
    case False
    with "2.prems"(1) have sl: "c = SLASH_CHAR" "take 1 cs = [SLASH_CHAR]"
      by (auto split: if_splits)
    then obtain cs' where cs': "cs = SLASH_CHAR # cs'" by (cases cs) auto
    have k1: "Suc k < length p" using cs cs' by (cases "Suc k < length p") simp_all
    then have "drop (Suc k) p = p ! Suc k # drop (Suc (Suc k)) p" by (simp add: Cons_nth_drop_Suc)
    with cs cs' have c1: "p ! Suc k = SLASH_CHAR" and tl: "drop (Suc (Suc k)) p = tl cs" by simp_all
    define rest where "rest = skip_line (tl cs)"
    define e where "e = length p - length rest"
    define cm where "cm = \<lparr>comment_lexeme = trim (take (e - k) (drop k p)), comment_offset = int e\<rparr>"
    define lx1 where "lx1 = lx\<lparr>program := (program lx)\<lparr>mPosition := e\<rparr>, position := e,
                    lastComments := lastComments lx @ [cm],
                    commentLog := commentLog lx @ [cm]\<rparr>"
    have st: "scanToken onError lx u = Inr (None, lx1, u)"
      using scanToken_line_comment [of lx k p onError u] "2.prems" k1 c c1 sl
      by (simp add: lx1_def cm_def e_def rest_def tl)
    have le: "length rest \<le> length p - Suc (Suc k)"
      using length_skip_line [of "tl cs"] tl [symmetric] by (simp add: rest_def)
    then have ke: "k < e" "e \<le> length p" using k1 by (simp_all add: e_def)
    have len: "length (c # cs) = length p - k" using "2.prems" by (metis length_drop)
    have n: "length (c # cs) - length rest = e - k"
      using le k1 unfolding len e_def by simp
    from "2.prems"(1) False sl obtain texts' where
      tr: "trivia rest = Some texts'" and
      texts: "texts = trim (take (e - k) (c # cs)) # texts'"
      by (auto simp: Let_def rest_def [symmetric] n [simplified])
    have dre: "drop e p = rest"
      unfolding e_def rest_def tl [symmetric] by (rule drop_skip_line_at) (use k1 in simp)
    from "2.IH"(2) [OF False _ rest_def tr, of lx1 e] sl "2.prems" ke dre
    obtain new where
      loop: "scanProgram_loop onError lx1 u tokens = Inr (tokens, after_trivia lx1 (length p) new, u)"
      and new: "map comment_lexeme new = texts'"
      by (auto simp: lx1_def)
    have "after_trivia lx1 (length p) new = after_trivia lx (length p) (cm # new)"
      by (simp add: after_trivia_def lx1_def)
    moreover have "map comment_lexeme (cm # new) = texts"
      using new texts "2.prems" by (simp add: cm_def)
    ultimately show ?thesis
      using loop nxt st by (subst scanProgram_loop.simps) (auto intro!: exI [of _ "cm # new"])
  qed
qed


text \<open>
  The first \<open>n\<close> iterations of the loop of \<open>scanProgram\<close>: the tokens so far, the
  lexer and the reporter's state after them. The loop, run from there, gives what it
  gives from the start.
\<close>

primrec scanProgram_steps ::
  "nat \<Rightarrow> 'u ErrorReporter \<Rightarrow> ClutchLexer \<Rightarrow> 'u \<Rightarrow> Token list \<Rightarrow>
   failure + (Token list \<times> ClutchLexer \<times> 'u)" where
  "scanProgram_steps 0 onError lx u tokens = Inr (tokens, lx, u)"
| "scanProgram_steps (Suc n) onError lx u tokens =
     (if hasNext (program lx) then
        (case scanToken onError lx u of
           Inl e \<Rightarrow> Inl e
         | Inr (token, lx', u') \<Rightarrow>
             scanProgram_steps n onError lx' u'
               (case token of Some t \<Rightarrow> tokens @ [t] | None \<Rightarrow> tokens))
      else Inr (tokens, lx, u))"

lemma scanProgram_steps_loop:
  "scanProgram_steps n onError lx u tokens = Inr (tokens', lx', u') \<Longrightarrow>
   scanProgram_loop onError lx u tokens = scanProgram_loop onError lx' u' tokens'"
proof (induction n arbitrary: lx u tokens)
  case 0
  then show ?case by simp
next
  case (Suc n)
  show ?case
  proof (cases "hasNext (program lx)")
    case False
    with Suc.prems show ?thesis by simp
  next
    case True
    with Suc.prems obtain topt lx1 u1 where
      st: "scanToken onError lx u = Inr (topt, lx1, u1)" and
      rest: "scanProgram_steps n onError lx1 u1
               (case topt of Some t \<Rightarrow> tokens @ [t] | None \<Rightarrow> tokens) = Inr (tokens', lx', u')"
      by (auto split: sum.splits)
    have "scanProgram_loop onError lx u tokens =
        scanProgram_loop onError lx1 u1 (case topt of Some t \<Rightarrow> tokens @ [t] | None \<Rightarrow> tokens)"
      using True st by (subst scanProgram_loop.simps) simp
    with Suc.IH [OF rest] show ?thesis by simp
  qed
qed

lemma scanProgram_steps_inv:
  "scanProgram_steps n onError lx u tokens = Inr (tokens', lx', u') \<Longrightarrow>
   loop_inv p lx tokens \<Longrightarrow> loop_inv p lx' tokens'"
proof (induction n arbitrary: lx u tokens)
  case 0
  then show ?case by simp
next
  case (Suc n)
  show ?case
  proof (cases "hasNext (program lx)")
    case False
    with Suc.prems show ?thesis by simp
  next
    case True
    with Suc.prems(1) obtain topt lx1 u1 where
      st: "scanToken onError lx u = Inr (topt, lx1, u1)" and
      rest: "scanProgram_steps n onError lx1 u1
               (case topt of Some t \<Rightarrow> tokens @ [t] | None \<Rightarrow> tokens) = Inr (tokens', lx', u')"
      by (auto split: sum.splits)
    from scanToken_loop_inv [OF Suc.prems(2) True st]
    show ?thesis by (rule Suc.IH [OF rest])
  qed
qed

text \<open>
  The loop on a rest of white space and comments, from any state the lexer can be in: no
  token is added, and every comment of the rest is appended to the buffer. When the
  anchor is behind the cursor (after an unexpected character) the text of the first
  record starts at the anchor.
\<close>

lemma scanProgram_loop_trailing_trivia:
  assumes tr: "trivia (drop k p) = Some texts"
    and p: "contents (source (program lx)) = p"
    and k: "mPosition (program lx) = k" "position lx \<le> k" "k \<le> length p"
  shows "\<exists>new lx'. scanProgram_loop onError lx u tokens = Inr (tokens, lx', u) \<and>
           lastComments lx' = lastComments lx @ new \<and> length new = length texts \<and>
           (position lx = k \<longrightarrow> position lx' = length p \<and> map comment_lexeme new = texts)"
proof -
  have done_from: "\<exists>new lx'. scanProgram_loop onError l u tokens = Inr (tokens, lx', u) \<and>
           lastComments lx' = lastComments l @ new \<and> length new = length ts \<and>
           position lx' = length p \<and> map comment_lexeme new = ts"
    if "trivia (drop j p) = Some ts" "contents (source (program l)) = p"
      "mPosition (program l) = j" "position l = j" "j \<le> length p" for l j ts
  proof -
    from scanProgram_loop_trivia [OF that(1,2,3,4,5) refl, of onError u tokens]
    obtain new where "scanProgram_loop onError l u tokens =
        Inr (tokens, after_trivia l (length p) new, u)" "map comment_lexeme new = ts"
      by blast
    then show ?thesis
      by (intro exI [of _ new] exI [of _ "after_trivia l (length p) new"])
         (auto simp: after_trivia_def dest: arg_cong [where f = length])
  qed
  show ?thesis
  proof (cases "position lx = k")
    case True
    from done_from [OF tr p k(1) True k(3)] show ?thesis by blast
  next
    case stale: False
    show ?thesis
    proof (cases "k < length p")
      case False
      with k have "\<not> hasNext (program lx)" "drop k p = []"
        using p by (simp_all add: hasNext_def scanner_length_def)
      with tr stale show ?thesis
        by (subst scanProgram_loop.simps) auto
    next
      case kl: True
      then have dr: "drop k p = p ! k # drop (Suc k) p" by (simp add: Cons_nth_drop_Suc)
      have nxt: "hasNext (program lx)"
        using kl p k by (simp add: hasNext_def scanner_length_def)
      show ?thesis
      proof (cases "isWhiteSpace (Some (p ! k))")
        case True
        define lx1 where "lx1 = lx\<lparr>program := (program lx)\<lparr>mPosition := Suc k\<rparr>, position := Suc k\<rparr>"
        have st: "scanToken onError lx u = Inr (None, lx1, u)"
          using scanToken_white_space [of lx onError u] kl True p k by (simp add: lx1_def)
        have tr1: "trivia (drop (Suc k) p) = Some texts" using tr True by (simp add: dr)
        have "\<exists>new lx'. scanProgram_loop onError lx1 u tokens = Inr (tokens, lx', u) \<and>
           lastComments lx' = lastComments lx1 @ new \<and> length new = length texts \<and>
           position lx' = length p \<and> map comment_lexeme new = texts"
          using kl p by (intro done_from [OF tr1]) (simp_all add: lx1_def)
        then obtain new lx' where
          "scanProgram_loop onError lx1 u tokens = Inr (tokens, lx', u)"
          "lastComments lx' = lastComments lx @ new" "length new = length texts"
          by (auto simp: lx1_def)
        with nxt st stale show ?thesis
          by (subst scanProgram_loop.simps) auto
      next
        case False
        with tr have sl: "p ! k = SLASH_CHAR" "take 1 (drop (Suc k) p) = [SLASH_CHAR]"
          by (auto simp: dr split: if_splits)
        then have k1: "Suc k < length p" by (cases "Suc k < length p") simp_all
        then have dr1: "drop (Suc k) p = p ! Suc k # drop (Suc (Suc k)) p"
          by (simp add: Cons_nth_drop_Suc)
        with sl have c1: "p ! Suc k = SLASH_CHAR" by simp
        define e where "e = length p - length (skip_line (drop (Suc (Suc k)) p))"
        define cm where "cm = \<lparr>comment_lexeme = trim (take (e - position lx) (drop (position lx) p)),
                  comment_offset = int e\<rparr>"
        define lx1 where "lx1 = lx\<lparr>program := (program lx)\<lparr>mPosition := e\<rparr>, position := e,
                    lastComments := lastComments lx @ [cm],
                    commentLog := commentLog lx @ [cm]\<rparr>"
        have st: "scanToken onError lx u = Inr (None, lx1, u)"
          using scanToken_line_comment [OF k(1,2) p k1 sl(1) c1, of onError u]
          by (simp add: lx1_def cm_def e_def)
        have el: "e \<le> length p" by (simp add: e_def)
        have dre: "drop e p = skip_line (drop (Suc (Suc k)) p)"
          unfolding e_def by (rule drop_skip_line_at) (use k1 in simp)
        from tr False sl obtain texts' where
          tr1: "trivia (drop e p) = Some texts'" and len: "length texts = Suc (length texts')"
          by (auto simp: dr dr1 dre Let_def)
        have "\<exists>new lx'. scanProgram_loop onError lx1 u tokens = Inr (tokens, lx', u) \<and>
           lastComments lx' = lastComments lx1 @ new \<and> length new = length texts' \<and>
           position lx' = length p \<and> map comment_lexeme new = texts'"
          using el p by (intro done_from [OF tr1]) (simp_all add: lx1_def)
        then obtain new lx' where
          "scanProgram_loop onError lx1 u tokens = Inr (tokens, lx', u)"
          "lastComments lx' = lastComments lx @ (cm # new)" "length (cm # new) = length texts"
          by (auto simp: lx1_def len)
        with nxt st stale show ?thesis
          by (subst scanProgram_loop.simps) (auto intro!: exI [of _ "cm # new"])
      qed
    qed
  qed
qed

text \<open>
  Claim C2, as the code has it. For every input that consists only of white space and
  line comments (\<open>trivia p = Some texts\<close>, with \<open>texts\<close> the trimmed texts of its
  comments, in order), for every reporter, \<open>tokenize\<close> returns exactly one token, the
  \<open>EOF\<close> token at offset \<open>length p\<close>, and that token carries all the comments, in
  order: none is discarded. In general, on every input: when after some iterations of
  the main loop (which have produced the tokens \<open>toks\<close>) what is left of the input
  consists of white space and line comments only, no further token is produced but
  \<open>EOF\<close>, and \<open>EOF\<close> carries the comments that were buffered at that point followed by
  one record for each of the trailing comments; their texts are \<open>texts\<close> whenever the
  anchor is at the cursor, which it is except directly behind an unexpected character.
\<close>

theorem trailing_comments_are_attached_to_eof:
  "(trivia p = Some texts \<longrightarrow>
      (\<exists>cs. tokenize p onError u =
              Inr ([\<lparr>kind = EOF, lexeme = [], comments = cs, offset = int (length p)\<rparr>], u) \<and>
            map comment_lexeme cs = texts)) \<and>
   (scanProgram_steps n (case onError of None \<Rightarrow> defaultOnError | Some r \<Rightarrow> r)
        (newClutchLexer\<lparr>position := 0, program := newStringScanner p\<rparr>) u [] =
      Inr (toks, lx, u1) \<and>
    trivia (drop (mPosition (program lx)) p) = Some texts' \<longrightarrow>
      (\<exists>new off. tokenize p onError u =
              Inr (toks @ [\<lparr>kind = EOF, lexeme = [], comments = lastComments lx @ new,
                            offset = off\<rparr>], u1) \<and>
            length new = length texts' \<and>
            (position lx = mPosition (program lx) \<longrightarrow>
               map comment_lexeme new = texts' \<and> off = int (length p))))"
proof (intro conjI impI)
  define r where "r = (case onError of None \<Rightarrow> defaultOnError | Some r \<Rightarrow> r)"
  define l where "l = newClutchLexer\<lparr>position := 0, program := newStringScanner p\<rparr>"
  have l: "contents (source (program l)) = p" "mPosition (program l) = 0" "position l = 0"
    "lastComments l = []"
    by (simp_all add: l_def newClutchLexer_def newStringScanner_def newSourceFile_def)
  {
    assume tr: "trivia p = Some texts"
    from scanProgram_loop_trivia [OF tr l(1,2,3), of r u "[]"]
    obtain new where
      loop: "scanProgram_loop r l u [] = Inr ([], after_trivia l (length p) new, u)"
      and new: "map comment_lexeme new = texts"
      by auto
    have "tokenize p onError u =
        Inr ([\<lparr>kind = EOF, lexeme = [], comments = new, offset = int (length p)\<rparr>], u)"
      by (simp add: tokenize_def scanProgram_def Let_def r_def [symmetric] l_def [symmetric] loop
          createToken_eq after_trivia_def l)
    with new show "\<exists>cs. tokenize p onError u =
              Inr ([\<lparr>kind = EOF, lexeme = [], comments = cs, offset = int (length p)\<rparr>], u) \<and>
            map comment_lexeme cs = texts"
      by blast
  }
  {
    assume a: "scanProgram_steps n (case onError of None \<Rightarrow> defaultOnError | Some r \<Rightarrow> r)
        (newClutchLexer\<lparr>position := 0, program := newStringScanner p\<rparr>) u [] =
      Inr (toks, lx, u1) \<and>
      trivia (drop (mPosition (program lx)) p) = Some texts'"
    then have steps: "scanProgram_steps n r l u [] = Inr (toks, lx, u1)"
      and tr: "trivia (drop (mPosition (program lx)) p) = Some texts'"
      by (simp_all add: r_def l_def)
    have inv: "loop_inv p lx toks"
      using scanProgram_steps_inv [OF steps loop_inv_start [of p, folded l_def]] .
    then have lx: "contents (source (program lx)) = p" "position lx \<le> mPosition (program lx)"
      "mPosition (program lx) \<le> length p"
      by (simp_all add: loop_inv_def)
    from scanProgram_loop_trailing_trivia [OF tr lx(1) refl lx(2,3), of onError' u1 toks for onError']
    obtain new lx' where
      loop: "scanProgram_loop r lx u1 toks = Inr (toks, lx', u1)" and
      new: "lastComments lx' = lastComments lx @ new" "length new = length texts'"
        "position lx = mPosition (program lx) \<longrightarrow>
           position lx' = length p \<and> map comment_lexeme new = texts'"
      by blast
    have "scanProgram_loop r l u [] = Inr (toks, lx', u1)"
      using scanProgram_steps_loop [OF steps] loop by simp
    then have "tokenize p onError u =
        Inr (toks @ [\<lparr>kind = EOF, lexeme = [], comments = lastComments lx @ new,
                      offset = int (position lx')\<rparr>], u1)"
      by (simp add: tokenize_def scanProgram_def Let_def r_def [symmetric] l_def [symmetric]
          createToken_eq new)
    with new show "\<exists>new off. tokenize p onError u =
              Inr (toks @ [\<lparr>kind = EOF, lexeme = [], comments = lastComments lx @ new,
                            offset = off\<rparr>], u1) \<and>
            length new = length texts' \<and>
            (position lx = mPosition (program lx) \<longrightarrow>
               map comment_lexeme new = texts' \<and> off = int (length p))"
      by (intro exI [of _ new] exI [of _ "int (position lx')"]) simp
  }
qed

text \<open>
  The witness of C2 as amended: two comments between white space, both on \<open>EOF\<close>; and
  \<open>x // b\<close>, where after two iterations (the identifier and the blank) the rest is the
  comment, which goes to \<open>EOF\<close>.
\<close>

theorem trailing_comments_are_attached_to_eof_witness:
  "trivia (str '' // a\<newline>  //b'') = Some [str ''// a'', str ''//b''] \<and>
   (\<exists>cs. tokenize (str '' // a\<newline>  //b'') None () =
           Inr ([\<lparr>kind = EOF, lexeme = [], comments = cs, offset = 11\<rparr>], ()) \<and>
         map comment_lexeme cs = [str ''// a'', str ''//b'']) \<and>
   trivia (drop 2 (str ''x // b'')) = Some [str ''// b''] \<and>
   (\<exists>new. tokenize (str ''x // b'') None () =
           Inr ([\<lparr>kind = IDENTIFIER, lexeme = str ''x'', comments = [], offset = 0\<rparr>,
                 \<lparr>kind = EOF, lexeme = [], comments = new, offset = 6\<rparr>], ()) \<and>
         map comment_lexeme new = [str ''// b''])"
proof -
  have tr: "trivia (str '' // a\<newline>  //b'') = Some [str ''// a'', str ''//b'']"
    by code_simp
  have len: "int (length (str '' // a\<newline>  //b'')) = 11" by (simp add: str_def)
  define lx :: ClutchLexer where "lx =
    \<lparr>program = \<lparr>source = newSourceFile (str ''x // b'') None, mPosition = 2\<rparr>,
     position = 2, lastComments = [], commentLog = []\<rparr>"
  have steps: "scanProgram_steps 2 (case None of None \<Rightarrow> defaultOnError | Some r \<Rightarrow> r)
        (newClutchLexer\<lparr>position := 0, program := newStringScanner (str ''x // b'')\<rparr>) () [] =
      Inr ([\<lparr>kind = IDENTIFIER, lexeme = str ''x'', comments = [], offset = 0\<rparr>], lx, ())"
    unfolding lx_def by code_simp
  have tr2: "trivia (drop 2 (str ''x // b'')) = Some [str ''// b'']"
    by code_simp
  have lxf: "mPosition (program lx) = 2" "position lx = 2" "lastComments lx = []"
    by (simp_all add: lx_def)
  have len2: "int (length (str ''x // b'')) = 6" by (simp add: str_def)
  note th = trailing_comments_are_attached_to_eof
  from th [of "str '' // a\<newline>  //b''" "[str ''// a'', str ''//b'']" None "()"] tr
  have a: "\<exists>cs. tokenize (str '' // a\<newline>  //b'') None () =
           Inr ([\<lparr>kind = EOF, lexeme = [], comments = cs, offset = 11\<rparr>], ()) \<and>
         map comment_lexeme cs = [str ''// a'', str ''//b'']"
    unfolding len by blast
  from th [of "str ''x // b''" "[]" None "()" 2
      "[\<lparr>kind = IDENTIFIER, lexeme = str ''x'', comments = [], offset = 0\<rparr>]" lx "()"
      "[str ''// b'']"] steps tr2 [folded lxf(1)]
  have "\<exists>new off. tokenize (str ''x // b'') None () =
           Inr ([\<lparr>kind = IDENTIFIER, lexeme = str ''x'', comments = [], offset = 0\<rparr>] @
                [\<lparr>kind = EOF, lexeme = [], comments = lastComments lx @ new, offset = off\<rparr>], ()) \<and>
         length new = length [str ''// b''] \<and>
         (position lx = mPosition (program lx) \<longrightarrow>
            map comment_lexeme new = [str ''// b''] \<and> off = int (length (str ''x // b'')))"
    by blast
  then have b: "\<exists>new. tokenize (str ''x // b'') None () =
           Inr ([\<lparr>kind = IDENTIFIER, lexeme = str ''x'', comments = [], offset = 0\<rparr>,
                 \<lparr>kind = EOF, lexeme = [], comments = new, offset = 6\<rparr>], ()) \<and>
         map comment_lexeme new = [str ''// b'']"
    unfolding lxf len2 by auto
  from tr a tr2 b show ?thesis by blast
qed

text \<open>
  Claim C2 says that on an input of comments only every buffered comment is discarded and
  no token of the output, \<open>EOF\<close> included, carries a comment. The input \<open>// hi\<close>
  consists of one line comment, and the \<open>EOF\<close> token of the output carries it.
\<close>

theorem comment_only_input_counterexample:
  "trivia (str ''// hi'') = Some [str ''// hi''] \<and>
   tokenize (str ''// hi'') None () =
     Inr ([\<lparr>kind = EOF, lexeme = [],
             comments = [\<lparr>comment_lexeme = str ''// hi'', comment_offset = 5\<rparr>],
             offset = 5\<rparr>], ())"
  by code_simp

end
